theory Spec2Isabelle
  imports Main "HOL-Library.Word" "HOL-Library.Sublist"
begin

section \<open>Strings of the scripting host\<close>

text \<open>
  The import script is ExtendScript: a string is a sequence of UTF-16 code units.
  A code unit is a 16-bit word, a string a list of them. ASCII literals are
  written with \<open>str\<close>.
\<close>

type_synonym jschar = "16 word"
type_synonym jsstring = "jschar list"

definition str :: "string \<Rightarrow> jsstring" where
  "str s = map (\<lambda>c. of_nat (of_char c)) s"

definition CR :: jschar where "CR = 0x0D"
definition TAB :: jschar where "TAB = 0x09"

text \<open>
  The character class \<open>\s\<close> of the regular expressions: the white space and line
  terminator code units of ECMAScript.
\<close>

definition isSpace :: "jschar \<Rightarrow> bool" where
  "isSpace c \<longleftrightarrow>
     c = 0x09 \<or> c = 0x0A \<or> c = 0x0B \<or> c = 0x0C \<or> c = 0x0D \<or> c = 0x20 \<or>
     c = 0xA0 \<or> c = 0x1680 \<or> c = 0x180E \<or> (0x2000 \<le> c \<and> c \<le> 0x200A) \<or>
     c = 0x2028 \<or> c = 0x2029 \<or> c = 0x202F \<or> c = 0x205F \<or> c = 0x3000 \<or>
     c = 0xFEFF"

text \<open>The class \<open>\d\<close>.\<close>

definition isDigit :: "jschar \<Rightarrow> bool" where
  "isDigit c \<longleftrightarrow> 0x30 \<le> c \<and> c \<le> 0x39"

text \<open>
  Matching under the \<open>i\<close> flag compares canonicalised code units. Every pattern of
  the script that carries the flag is made of ASCII characters, and ECMAScript never
  canonicalises a code unit of 128 or more to one below 128, so only the ASCII
  letters need folding.
\<close>

definition canonicalize :: "jschar \<Rightarrow> jschar" where
  "canonicalize c = (if 0x61 \<le> c \<and> c \<le> 0x7A then c - 0x20 else c)"

text \<open>\<open>/^pat/i.test(s)\<close> for a literal pattern.\<close>

fun startsWithI :: "jsstring \<Rightarrow> jsstring \<Rightarrow> bool" where
  "startsWithI [] s = True"
| "startsWithI (p # ps) [] = False"
| "startsWithI (p # ps) (c # cs) = (canonicalize p = canonicalize c \<and> startsWithI ps cs)"

text \<open>\<open>/pat/i.test(s)\<close> for a literal pattern: the pattern occurs somewhere in \<open>s\<close>.\<close>

fun testI :: "jsstring \<Rightarrow> jsstring \<Rightarrow> bool" where
  "testI pat [] = startsWithI pat []"
| "testI pat (c # cs) = (startsWithI pat (c # cs) \<or> testI pat cs)"

text \<open>\<open>s.replace(/^\s+/, "")\<close> and \<open>s.replace(/\s+$/, "")\<close>.\<close>

definition trimStart :: "jsstring \<Rightarrow> jsstring" where
  "trimStart s = dropWhile isSpace s"

definition trimEnd :: "jsstring \<Rightarrow> jsstring" where
  "trimEnd s = rev (dropWhile isSpace (rev s))"

text \<open>
  \<open>s.replace(/^\s+|\s+$/g, "")\<close>: the scan is left to right, so the first
  alternative removes the leading run (the whole string when it is all white space),
  and the second removes the trailing run of what is left.
\<close>

definition trimBoth :: "jsstring \<Rightarrow> jsstring" where
  "trimBoth s = trimEnd (trimStart s)"

text \<open>\<open>s.replace(/\s/g, "")\<close>.\<close>

definition removeSpaces :: "jsstring \<Rightarrow> jsstring" where
  "removeSpaces s = filter (\<lambda>c. \<not> isSpace c) s"

section \<open>Paragraphs\<close>

text \<open>
  A paragraph as the script reads and writes it: its contents, the paragraph
  style applied to it (the reference may be missing: the script reads its name under
  \<open>try\<close> or behind \<open>&&\<close>), its left indent, the host's list type, and whether
  it carries local overrides. A style object is identified by its name.
\<close>

datatype paragraphStyle = ParagraphStyle (styleName: jsstring)

datatype listType = NO_LIST | BULLET_LIST | NUMBERED_LIST

record para =
  contents :: jsstring
  appliedParagraphStyle :: "paragraphStyle option"
  leftIndent :: int
  bulletsAndNumberingListType :: listType
  overrides :: bool

section \<open>Content sanitizer\<close>

text \<open>
  Modelled from the spec: the host's story object, which the script only calls. The
  host presents a story both as one text, in which the code unit \<open>CR\<close> ends a
  paragraph, and as the ordered sequence of its paragraphs. As in the data model of
  the specification, a paragraph's contents are its text without the terminating
  return. A final piece of text without a return is a paragraph of its own; an empty
  one is not.
\<close>

definition isCR :: "jschar \<Rightarrow> bool" where
  "isCR c \<longleftrightarrow> c = CR"

fun paragraphsOf :: "jsstring \<Rightarrow> jsstring list" where
  "paragraphsOf [] = []"
| "paragraphsOf (c # cs) =
     (if c = CR then [] # paragraphsOf cs
      else (case paragraphsOf cs of [] \<Rightarrow> [[c]] | p # ps \<Rightarrow> (c # p) # ps))"

definition storyText :: "jsstring list \<Rightarrow> jsstring" where
  "storyText ps = concat (map (\<lambda>p. p @ [CR]) ps)"

text \<open>
  Step 5, "Clean up multiple returns": \<open>story.changeGrep()\<close> with
  \<open>findWhat = "(\\r){3,}"\<close> and \<open>changeTo = "\r\r"\<close>. The scan goes left to right;
  where three or more returns begin, the whole run (the quantifier is greedy) is
  replaced by two returns and the scan resumes behind it; elsewhere the code unit is
  kept.
\<close>

function collapseReturns :: "jsstring \<Rightarrow> jsstring" where
  "collapseReturns [] = []"
| "collapseReturns (c # cs) =
     (if 3 \<le> length (takeWhile isCR (c # cs))
      then CR # CR # collapseReturns (dropWhile isCR (c # cs))
      else c # collapseReturns cs)"
  by pat_completeness auto
termination
proof (relation "measure length")
  fix c :: jschar and cs :: jsstring
  assume "3 \<le> length (takeWhile isCR (c # cs))"
  then have "isCR c" by (auto split: if_splits)
  then have "dropWhile isCR (c # cs) = dropWhile isCR cs" by simp
  moreover have "length (dropWhile isCR cs) \<le> length cs" by (rule length_dropWhile_le)
  ultimately show "(dropWhile isCR (c # cs), c # cs) \<in> measure length" by simp
qed simp_all

text \<open>
  Step 6, "Insert paragraph break between consecutive Headings": \<open>changeGrep\<close> with
  \<open>findWhat = "(?<=Heading 1)(?=Heading 2)"\<close> after both preference objects were
  reset, so no replacement text is set. The pattern matches only empty positions, and
  an empty match replaced by nothing leaves the text as it is.
\<close>

definition insertHeadingBreaks :: "jsstring \<Rightarrow> jsstring" where
  "insertHeadingBreaks t = t"

text \<open>
  Modelled from the spec: the failures of the host. An operation on a single
  paragraph may fail; the failure is thrown to the script, and the paragraph is as it
  was before the operation. A paragraph of the story carries the operations that
  throw on it.
\<close>

datatype hostOp = ReadContents | WriteContents | RemoveParagraph

record hostParagraph = para +
  throwsOn :: "hostOp list"

text \<open>The read \<open>p.contents\<close>: the contents, or \<open>None\<close> when the read throws.\<close>

definition readContents :: "hostParagraph \<Rightarrow> jsstring option" where
  "readContents p = (if ReadContents \<in> set (throwsOn p) then None else Some (contents p))"

text \<open>The write \<open>p.contents = c\<close>: the paragraph written, or \<open>None\<close> when the write throws.\<close>

definition writeContents :: "jsstring \<Rightarrow> hostParagraph \<Rightarrow> hostParagraph option" where
  "writeContents c p =
     (if WriteContents \<in> set (throwsOn p) then None else Some (p\<lparr>contents := c\<rparr>))"

text \<open>
  \<open>p.remove()\<close> on the paragraph at index \<open>i\<close> of the live collection: the
  paragraphs without it, or \<open>None\<close> when the removal throws.
\<close>

definition removeAt :: "nat \<Rightarrow> 'a list \<Rightarrow> 'a list" where
  "removeAt i xs = take i xs @ drop (Suc i) xs"

definition removeParagraph :: "nat \<Rightarrow> hostParagraph list \<Rightarrow> hostParagraph list option" where
  "removeParagraph i ps =
     (if RemoveParagraph \<in> set (throwsOn (ps ! i)) then None else Some (removeAt i ps))"

text \<open>
  Step 7, "Trim and remove empties":
  \<^verbatim>\<open>
  for (var i = 0; i < story.paragraphs.length; i++) {
      var p = story.paragraphs[i];
      try {
          p.contents = p.contents.replace(/^\s+|\s+$/g, "");
          if (p.contents.replace(/\s/g, "") === "") { p.remove(); i--; }
      } catch (_) {}
  }
  \<close>
  The collection is live: its length is read again at every test. After a removal
  \<open>i--\<close> and the loop's \<open>i++\<close> cancel (through \<open>-1\<close> when \<open>i = 0\<close>), so the next
  iteration runs at the same index. In every other case it runs at \<open>i + 1\<close>: when the
  paragraph is not empty after trimming, and when the read, the write, the second
  read or the removal throws; the empty \<open>catch\<close> swallows the failure, and what the
  \<open>try\<close> block wrote before it stays written.
\<close>

function trimLoop :: "nat \<Rightarrow> hostParagraph list \<Rightarrow> hostParagraph list" where
  "trimLoop i ps =
     (if i < length ps then
        (case readContents (ps ! i) of
           None \<Rightarrow> trimLoop (Suc i) ps
         | Some c \<Rightarrow>
             (case writeContents (trimBoth c) (ps ! i) of
                None \<Rightarrow> trimLoop (Suc i) ps
              | Some p \<Rightarrow>
                  (let ps1 = ps[i := p] in
                   case readContents (ps1 ! i) of
                     None \<Rightarrow> trimLoop (Suc i) ps1
                   | Some c' \<Rightarrow>
                       if removeSpaces c' = [] then
                         (case removeParagraph i ps1 of
                            None \<Rightarrow> trimLoop (Suc i) ps1
                          | Some ps2 \<Rightarrow> trimLoop i ps2)
                       else trimLoop (Suc i) ps1)))
      else ps)"
  by pat_completeness auto
termination
  by (relation "measure (\<lambda>(i, ps). length ps - i)")
    (auto simp: removeParagraph_def removeAt_def split: if_splits)

declare trimLoop.simps [simp del]

definition trimAndRemoveEmpties :: "hostParagraph list \<Rightarrow> hostParagraph list" where
  "trimAndRemoveEmpties ps = trimLoop 0 ps"

text \<open>
  A paragraph of the placed text with the given contents, before any style is mapped,
  on which no operation of the host throws; and the contents that the trim-and-prune
  loop leaves of a story of such paragraphs.
\<close>

definition importedParagraph :: "jsstring \<Rightarrow> hostParagraph" where
  "importedParagraph c =
     \<lparr>contents = c, appliedParagraphStyle = None, leftIndent = 0,
      bulletsAndNumberingListType = NO_LIST, overrides = False, throwsOn = []\<rparr>"

definition trimmedContents :: "jsstring list \<Rightarrow> jsstring list" where
  "trimmedContents cs = map contents (trimAndRemoveEmpties (map importedParagraph cs))"

text \<open>
  The sanitizer stage on a story's text: steps 5, 6 and 7 in the script's order,
  giving the story's paragraphs and its text.
\<close>

definition sanitizedParagraphs :: "jsstring \<Rightarrow> jsstring list" where
  "sanitizedParagraphs t =
     trimmedContents (paragraphsOf (insertHeadingBreaks (collapseReturns t)))"

definition sanitize :: "jsstring \<Rightarrow> jsstring" where
  "sanitize t = storyText (sanitizedParagraphs t)"

text \<open>
  The trim-and-prune pass in the specification's words, on the contents: every
  paragraph is trimmed, and the paragraphs that are empty after trimming are deleted.
\<close>

definition trimAndPruneSpec :: "jsstring list \<Rightarrow> jsstring list" where
  "trimAndPruneSpec ps = filter (\<lambda>p. p \<noteq> []) (map trimBoth ps)"

definition whitespaceOnly :: "jsstring \<Rightarrow> bool" where
  "whitespaceOnly p \<longleftrightarrow> list_all isSpace p"

text \<open>
  The same pass with the failures of the host, in the specification's words: a
  paragraph whose operation fails is skipped and the pass goes on with the next. A
  paragraph that cannot be read or written is left as it is; one that is empty after
  trimming and cannot be removed stays, trimmed; every other paragraph is trimmed, and
  deleted (\<open>None\<close>) when it is empty after trimming.
\<close>

definition trimOrSkip :: "hostParagraph \<Rightarrow> hostParagraph option" where
  "trimOrSkip p =
     (if ReadContents \<in> set (throwsOn p) \<or> WriteContents \<in> set (throwsOn p) then Some p
      else if trimBoth (contents p) \<noteq> [] then Some (p\<lparr>contents := trimBoth (contents p)\<rparr>)
      else if RemoveParagraph \<in> set (throwsOn p) then Some (p\<lparr>contents := []\<rparr>)
      else None)"

definition trimAndPruneOrSkip :: "hostParagraph list \<Rightarrow> hostParagraph list" where
  "trimAndPruneOrSkip ps = List.map_filter trimOrSkip ps"

section \<open>Pagination flow controller\<close>

text \<open>
  The host's geometry: a page has bounds \<open>[y1, x1, y2, x2]\<close> and margin preferences; a
  text frame has geometric bounds and lies on a page. A page lists the bounds of its
  frames; a container of a story's chain is a frame together with the index of its
  page in \<open>doc.pages\<close>. Lengths are whole numbers of some unit.
\<close>

record bounds =
  y1 :: int
  x1 :: int
  y2 :: int
  x2 :: int

record marginPreferences =
  m_top :: int
  m_left :: int
  m_bottom :: int
  m_right :: int

record textFrame =
  geometricBounds :: bounds
  parentPage :: nat

record page =
  pageBounds :: bounds
  marginPrefs :: marginPreferences
  textFrames :: "bounds list"

text \<open>
  The document and the placed story during the overflow loop: the pages, the chain of
  containers that displays the story (\<open>story.textContainers\<close>, each linked to the
  next), the amount of content the story holds, and the geometry the host gives a
  page added by \<open>doc.pages.add\<close>.
\<close>

record flowState =
  pages :: "page list"
  textContainers :: "textFrame list"
  storyContent :: nat
  newPageBounds :: bounds
  newPageMargins :: marginPreferences

text \<open>
  \<^verbatim>\<open>
  function createFrameInsideMargins(page) {
      var m = page.marginPreferences, b = page.bounds;
      return page.textFrames.add({ geometricBounds:
          [b[0]+m.top, b[1]+m.left, b[2]-m.bottom, b[3]-m.right] });
  }
  \<close>
  The bounds of the frame, and the frame added to the page at index \<open>i\<close>.
\<close>

definition insideMargins :: "page \<Rightarrow> bounds" where
  "insideMargins pg =
     (let m = marginPrefs pg; b = pageBounds pg in
      \<lparr>y1 = y1 b + m_top m, x1 = x1 b + m_left m,
       y2 = y2 b - m_bottom m, x2 = x2 b - m_right m\<rparr>)"

definition createFrameInsideMargins :: "nat \<Rightarrow> page \<Rightarrow> textFrame \<times> page" where
  "createFrameInsideMargins i pg =
     (let g = insideMargins pg
      in (\<lparr>geometricBounds = g, parentPage = i\<rparr>, pg\<lparr>textFrames := textFrames pg @ [g]\<rparr>))"

text \<open>
  Modelled from the spec: the host's overflow flag \<open>story.overflows\<close>, which the
  script only reads. The story overflows while it holds more content than its chain
  of containers can display. A container displays as much as its usable area, which
  is zero when its height or its width is not positive (the margins are at least the
  page size).
\<close>

definition usableArea :: "bounds \<Rightarrow> nat" where
  "usableArea b =
     (if y1 b < y2 b \<and> x1 b < x2 b then nat ((y2 b - y1 b) * (x2 b - x1 b)) else 0)"

definition chainCapacity :: "textFrame list \<Rightarrow> nat" where
  "chainCapacity fs = sum_list (map (\<lambda>f. usableArea (geometricBounds f)) fs)"

definition overflows :: "flowState \<Rightarrow> bool" where
  "overflows s \<longleftrightarrow> chainCapacity (textContainers s) < storyContent s"

text \<open>
  \<open>doc.pages.add(LocationOptions.AFTER, ref)\<close>: the new page is put behind the page
  at index \<open>i\<close>.
\<close>

definition addPageAfter :: "nat \<Rightarrow> page \<Rightarrow> page list \<Rightarrow> page list" where
  "addPageAfter i pg ps = take (Suc i) ps @ [pg] @ drop (Suc i) ps"

text \<open>
  The body of the loop:
  \<^verbatim>\<open>
  var lastPage = doc.pages[doc.pages.length - 1];
  var newPage = doc.pages.add(LocationOptions.AFTER, lastPage);
  var newFrame = createFrameInsideMargins(newPage);
  story.textContainers[story.textContainers.length - 1].nextTextFrame = newFrame;
  \<close>
  A document always has a page (the script has read \<open>doc.pages[0]\<close> before), so the
  last page is the one at index \<open>length - 1\<close> and the new page gets the index
  \<open>length\<close>. Linking the frame behind the last container of the chain makes it the
  chain's last container.
\<close>

definition addPageAndFrame :: "flowState \<Rightarrow> flowState" where
  "addPageAndFrame s =
     (let lastPage = length (pages s) - 1;
          blank = \<lparr>pageBounds = newPageBounds s, marginPrefs = newPageMargins s,
                   textFrames = []\<rparr>;
          (newFrame, newPage) = createFrameInsideMargins (Suc lastPage) blank
      in s\<lparr>pages := addPageAfter lastPage newPage (pages s),
           textContainers := textContainers s @ [newFrame]\<rparr>)"

text \<open>
  \<open>while (story.overflows) { ... }\<close>. The loop has no bound of its own, so the model
  is a partial function: \<open>None\<close> stands for a loop that never ends.
\<close>

partial_function (option) flowOverflow :: "flowState \<Rightarrow> flowState option" where
  "flowOverflow s = (if overflows s then flowOverflow (addPageAndFrame s) else Some s)"

text \<open>
  Steps 3 and 4:
  \<^verbatim>\<open>
  var firstPage = doc.pages[0];
  var targetFrame = (firstPage.textFrames.length > 0)
      ? firstPage.textFrames[0] : createFrameInsideMargins(firstPage);
  targetFrame.place(importFile);
  var story = targetFrame.parentStory;
  \<close>
  A document has a first page and the pages behind it. The importer places the file
  in the target frame; the story of \<open>n\<close> units of content is then displayed by that
  one container.
\<close>

definition placeInFirstFrame ::
  "page \<Rightarrow> page list \<Rightarrow> bounds \<Rightarrow> marginPreferences \<Rightarrow> nat \<Rightarrow> flowState" where
  "placeInFirstFrame firstPage morePages nb nm n =
     (let (targetFrame, firstPage') =
            (case textFrames firstPage of
               g # gs \<Rightarrow> (\<lparr>geometricBounds = g, parentPage = 0\<rparr>, firstPage)
             | [] \<Rightarrow> createFrameInsideMargins 0 firstPage)
      in \<lparr>pages = firstPage' # morePages, textContainers = [targetFrame],
          storyContent = n, newPageBounds = nb, newPageMargins = nm\<rparr>)"

text \<open>The area of the frame that every added page receives.\<close>

definition newFrameArea :: "flowState \<Rightarrow> nat" where
  "newFrameArea s =
     usableArea (insideMargins \<lparr>pageBounds = newPageBounds s,
       marginPrefs = newPageMargins s, textFrames = []\<rparr>)"

text \<open>Every container of the chain lies on a page strictly behind its predecessor's.\<close>

definition pagesAscend :: "textFrame list \<Rightarrow> bool" where
  "pagesAscend fs \<longleftrightarrow> sorted_wrt (<) (map parentPage fs)"

text \<open>
  A well-formed state: the document has a page, the chain has a container, the chain's
  pages ascend, and every container lies on a page of the document.
\<close>

definition wellFormed :: "flowState \<Rightarrow> bool" where
  "wellFormed s \<longleftrightarrow>
     pages s \<noteq> [] \<and> textContainers s \<noteq> [] \<and> pagesAscend (textContainers s) \<and>
     list_all (\<lambda>f. parentPage f < length (pages s)) (textContainers s)"

text \<open>The page that one iteration of the loop adds, with its frame.\<close>

definition addedPage :: "flowState \<Rightarrow> page" where
  "addedPage s =
     \<lparr>pageBounds = newPageBounds s, marginPrefs = newPageMargins s,
      textFrames = [insideMargins \<lparr>pageBounds = newPageBounds s,
        marginPrefs = newPageMargins s, textFrames = []\<rparr>]\<rparr>"

text \<open>
  What holds of the state \<open>s'\<close> in which the loop started in \<open>s\<close> ends: the story
  does not overflow; the chain's pages ascend; the pages and the chain of \<open>s\<close> are
  still there, in place, followed by as many new pages as new containers; every new
  container has the bounds inside the margins of its page, which is a new page; the
  story's content is the same.
\<close>

definition flowResult :: "flowState \<Rightarrow> flowState \<Rightarrow> bool" where
  "flowResult s s' \<longleftrightarrow>
     \<not> overflows s' \<and> wellFormed s' \<and>
     prefix (pages s) (pages s') \<and> prefix (textContainers s) (textContainers s') \<and>
     length (pages s') - length (pages s) =
       length (textContainers s') - length (textContainers s) \<and>
     list_all (\<lambda>f. geometricBounds f = insideMargins (pages s' ! parentPage f) \<and>
                   length (pages s) \<le> parentPage f)
       (drop (length (textContainers s)) (textContainers s')) \<and>
     storyContent s' = storyContent s"

text \<open>
  Example documents: a page of 100 by 100 units without frames and with the same
  margin on every side.
\<close>

definition squarePage :: "int \<Rightarrow> page" where
  "squarePage m =
     \<lparr>pageBounds = \<lparr>y1 = 0, x1 = 0, y2 = 100, x2 = 100\<rparr>,
      marginPrefs = \<lparr>m_top = m, m_left = m, m_bottom = m, m_right = m\<rparr>,
      textFrames = []\<rparr>"

text \<open>
  A story of \<open>n\<close> units placed on one such page with margins of 10, in a document
  whose new pages have margins of \<open>m\<close>.
\<close>

definition placedStory :: "int \<Rightarrow> nat \<Rightarrow> flowState" where
  "placedStory m n =
     placeInFirstFrame (squarePage 10) [] (pageBounds (squarePage m))
       (marginPrefs (squarePage m)) n"

text \<open>
  A page that does not start at the origin, as the right-hand page of a spread, with
  four different margins; and a story of \<open>n\<close> units placed on it, in a document
  whose new pages have that geometry too.
\<close>

definition spreadPage :: page where
  "spreadPage =
     \<lparr>pageBounds = \<lparr>y1 = 5, x1 = 200, y2 = 105, x2 = 300\<rparr>,
      marginPrefs = \<lparr>m_top = 10, m_left = 20, m_bottom = 30, m_right = 40\<rparr>,
      textFrames = []\<rparr>"

definition spreadStory :: "nat \<Rightarrow> flowState" where
  "spreadStory n =
     placeInFirstFrame spreadPage [] (pageBounds spreadPage) (marginPrefs spreadPage) n"

section \<open>Style classifier\<close>

text \<open>
  \<^verbatim>\<open>
  function getStyle(docRef, name) {
      try { var s = docRef.paragraphStyles.itemByName(name); s.name; return s; }
      catch (_) { return null; }
  }
  \<close>
  The registry \<open>docRef.paragraphStyles\<close> is the list of the registered names; reading
  the name of a style that is not registered throws.
\<close>

definition getStyle :: "jsstring list \<Rightarrow> jsstring \<Rightarrow> paragraphStyle option" where
  "getStyle paragraphStyles n =
     (if n \<in> set paragraphStyles then Some (ParagraphStyle n) else None)"

record styles =
  body :: "paragraphStyle option"
  h1 :: "paragraphStyle option"
  h2 :: "paragraphStyle option"
  h3 :: "paragraphStyle option"
  h4 :: "paragraphStyle option"
  h5 :: "paragraphStyle option"
  h6 :: "paragraphStyle option"
  bullet :: "paragraphStyle option"
  subBullet :: "paragraphStyle option"
  tableStyle :: "paragraphStyle option"

text \<open>"Gather styles", as the variants with six heading levels do.\<close>

definition gatherStyles :: "jsstring list \<Rightarrow> styles" where
  "gatherStyles reg =
     \<lparr>body = getStyle reg (str ''Body''),
      h1 = getStyle reg (str ''Heading 1''), h2 = getStyle reg (str ''Heading 2''),
      h3 = getStyle reg (str ''Heading 3''), h4 = getStyle reg (str ''Heading 4''),
      h5 = getStyle reg (str ''Heading 5''), h6 = getStyle reg (str ''Heading 6''),
      bullet = getStyle reg (str ''Bullets''),
      subBullet = getStyle reg (str ''Sub-Bullets''),
      tableStyle = getStyle reg (str ''Table Style 1'')\<rparr>"

text \<open>
  \<open>srcName = para.appliedParagraphStyle.name || ""\<close> under \<open>try\<close>, and
  \<open>(p.appliedParagraphStyle && p.appliedParagraphStyle.name) || ""\<close>.
\<close>

definition srcNameOf :: "para \<Rightarrow> jsstring" where
  "srcNameOf p = (case appliedParagraphStyle p of None \<Rightarrow> [] | Some s \<Rightarrow> styleName s)"

subsection \<open>Pass A: headings and body\<close>

text \<open>
  "Apply style mapping (Headings first)", the variant with three heading levels:
  \<^verbatim>\<open>
  if (/Heading 1/i.test(srcName) && styles.h1) para.appliedParagraphStyle = styles.h1;
  else if (/Heading 2/i.test(srcName) && styles.h2) para.appliedParagraphStyle = styles.h2;
  else if (/Heading 3/i.test(srcName) && styles.h3) para.appliedParagraphStyle = styles.h3;
  else if (/Normal/i.test(srcName) && styles.body) para.appliedParagraphStyle = styles.body;
  else if (styles.body) para.appliedParagraphStyle = styles.body;
  try { para.clearOverrides(); } catch (_) {}
  \<close>
\<close>

definition applyStyleMappingStep :: "styles \<Rightarrow> para \<Rightarrow> para" where
  "applyStyleMappingStep st p =
     (let srcName = srcNameOf p;
          p1 =
            (if testI (str ''Heading 1'') srcName \<and> h1 st \<noteq> None
               then p\<lparr>appliedParagraphStyle := h1 st\<rparr>
             else if testI (str ''Heading 2'') srcName \<and> h2 st \<noteq> None
               then p\<lparr>appliedParagraphStyle := h2 st\<rparr>
             else if testI (str ''Heading 3'') srcName \<and> h3 st \<noteq> None
               then p\<lparr>appliedParagraphStyle := h3 st\<rparr>
             else if testI (str ''Normal'') srcName \<and> body st \<noteq> None
               then p\<lparr>appliedParagraphStyle := body st\<rparr>
             else if body st \<noteq> None
               then p\<lparr>appliedParagraphStyle := body st\<rparr>
             else p)
      in p1\<lparr>overrides := False\<rparr>)"

primrec applyStyleMapping :: "styles \<Rightarrow> para list \<Rightarrow> para list" where
  "applyStyleMapping st [] = []"
| "applyStyleMapping st (p # ps) = applyStyleMappingStep st p # applyStyleMapping st ps"

text \<open>
  "Map incoming Word/RTF para styles", the variant with six heading levels:
  \<^verbatim>\<open>
  if (/Normal/i.test(srcName) && styles.body)        para.appliedParagraphStyle = styles.body;
  else if (/Heading 1/i.test(srcName) && styles.h1)   para.appliedParagraphStyle = styles.h1;
  ...
  else if (/Heading 6/i.test(srcName) && styles.h6)   para.appliedParagraphStyle = styles.h6;
  else if (styles.body)                               para.appliedParagraphStyle = styles.body;
  try { para.clearOverrides(); } catch (_) {}
  \<close>
\<close>

definition mapIncomingStylesStep :: "styles \<Rightarrow> para \<Rightarrow> para" where
  "mapIncomingStylesStep st p =
     (let srcName = srcNameOf p;
          p1 =
            (if testI (str ''Normal'') srcName \<and> body st \<noteq> None
               then p\<lparr>appliedParagraphStyle := body st\<rparr>
             else if testI (str ''Heading 1'') srcName \<and> h1 st \<noteq> None
               then p\<lparr>appliedParagraphStyle := h1 st\<rparr>
             else if testI (str ''Heading 2'') srcName \<and> h2 st \<noteq> None
               then p\<lparr>appliedParagraphStyle := h2 st\<rparr>
             else if testI (str ''Heading 3'') srcName \<and> h3 st \<noteq> None
               then p\<lparr>appliedParagraphStyle := h3 st\<rparr>
             else if testI (str ''Heading 4'') srcName \<and> h4 st \<noteq> None
               then p\<lparr>appliedParagraphStyle := h4 st\<rparr>
             else if testI (str ''Heading 5'') srcName \<and> h5 st \<noteq> None
               then p\<lparr>appliedParagraphStyle := h5 st\<rparr>
             else if testI (str ''Heading 6'') srcName \<and> h6 st \<noteq> None
               then p\<lparr>appliedParagraphStyle := h6 st\<rparr>
             else if body st \<noteq> None
               then p\<lparr>appliedParagraphStyle := body st\<rparr>
             else p)
      in p1\<lparr>overrides := False\<rparr>)"

primrec mapIncomingStyles :: "styles \<Rightarrow> para list \<Rightarrow> para list" where
  "mapIncomingStyles st [] = []"
| "mapIncomingStyles st (p # ps) = mapIncomingStylesStep st p # mapIncomingStyles st ps"

text \<open>
  For the statements: the heading pattern and the target style of level \<open>k\<close>, and
  the patterns of the six-level chain that stand before and behind level \<open>k\<close>.
\<close>

definition headingPattern :: "nat \<Rightarrow> jsstring" where
  "headingPattern k = str ''Heading '' @ [of_nat (48 + k)]"

definition headingStyle :: "styles \<Rightarrow> nat \<Rightarrow> paragraphStyle option" where
  "headingStyle st k =
     (if k = 1 then h1 st else if k = 2 then h2 st else if k = 3 then h3 st
      else if k = 4 then h4 st else if k = 5 then h5 st else if k = 6 then h6 st
      else None)"

definition matchesOnlyHeading :: "nat \<Rightarrow> jsstring \<Rightarrow> bool" where
  "matchesOnlyHeading k srcName \<longleftrightarrow>
     1 \<le> k \<and> k \<le> 6 \<and> testI (headingPattern k) srcName \<and>
     \<not> testI (str ''Normal'') srcName \<and>
     list_all (\<lambda>j. j = k \<or> \<not> testI (headingPattern j) srcName) [1, 2, 3, 4, 5, 6]"

subsection \<open>Pass B: bullets and lists\<close>

text \<open>
  The regular expressions of the bullet passes. Each is anchored at the start of the
  text, so a match is a prefix; the function gives the text behind the match, or
  \<open>None\<close> when the expression does not match. In every expression the class of
  the first part and \<open>\s\<close> are disjoint and the quantifiers are greedy, so \<open>\s*\<close> takes
  the whole run of white space and \<open>\t?\<close> takes a tab if one follows.
\<close>

definition optTab :: "jsstring \<Rightarrow> jsstring" where
  "optTab s = (case s of [] \<Rightarrow> [] | c # cs \<Rightarrow> if c = TAB then cs else s)"

text \<open>\<open>re.test(s)\<close> and \<open>s.replace(re, "")\<close> for such an expression.\<close>

definition reTest :: "(jsstring \<Rightarrow> jsstring option) \<Rightarrow> jsstring \<Rightarrow> bool" where
  "reTest re s \<longleftrightarrow> re s \<noteq> None"

definition reRemove :: "(jsstring \<Rightarrow> jsstring option) \<Rightarrow> jsstring \<Rightarrow> jsstring" where
  "reRemove re s = (case re s of None \<Rightarrow> s | Some rest \<Rightarrow> rest)"

text \<open>
  \<^verbatim>\<open>primaryBulletRE = /^[\u2022\u25CF\u25E6\uF0B7\u2219\u00B7]\s*\t?/\<close>
\<close>

definition isPrimaryGlyph :: "jschar \<Rightarrow> bool" where
  "isPrimaryGlyph c \<longleftrightarrow>
     c = 0x2022 \<or> c = 0x25CF \<or> c = 0x25E6 \<or> c = 0xF0B7 \<or> c = 0x2219 \<or> c = 0x00B7"

definition primaryBulletRE :: "jsstring \<Rightarrow> jsstring option" where
  "primaryBulletRE s =
     (case s of [] \<Rightarrow> None
      | c # cs \<Rightarrow> if isPrimaryGlyph c then Some (optTab (dropWhile isSpace cs)) else None)"

text \<open>
  \<open>subBulletGlyphRE = /^[...]\s*\t?/\<close> with the class of the white circle U+25CB, the
  white bullet U+25E6 and the letter \<open>o\<close>.
\<close>

definition isSubGlyph :: "jschar \<Rightarrow> bool" where
  "isSubGlyph c \<longleftrightarrow> c = 0x25CB \<or> c = 0x25E6 \<or> c = 0x6F"

definition subBulletGlyphRE :: "jsstring \<Rightarrow> jsstring option" where
  "subBulletGlyphRE s =
     (case s of [] \<Rightarrow> None
      | c # cs \<Rightarrow> if isSubGlyph c then Some (optTab (dropWhile isSpace cs)) else None)"

text \<open>
  \<open>dashBulletRE = /^[...]\s+\t?/\<close> with the class of the hyphen U+002D and the en dash
  U+2013: at least one white space must follow.
\<close>

definition isDash :: "jschar \<Rightarrow> bool" where
  "isDash c \<longleftrightarrow> c = 0x2D \<or> c = 0x2013"

definition dashBulletRE :: "jsstring \<Rightarrow> jsstring option" where
  "dashBulletRE s =
     (case s of [] \<Rightarrow> None
      | c # cs \<Rightarrow>
          if isDash c \<and> cs \<noteq> [] \<and> isSpace (hd cs)
          then Some (optTab (dropWhile isSpace cs)) else None)"

text \<open>
  \<^verbatim>\<open>glyphRE = /^[\u2022\u25CF\u25E6\uF0B7\u2219\u00B7...]+\s*\t?/\<close>, where the class
  goes on with the literal characters U+25CB, U+25E6, \<open>o\<close>, the hyphen, the en dash
  U+2013 and U+2022: one or more glyphs, then the white space.
\<close>

definition isGlyph :: "jschar \<Rightarrow> bool" where
  "isGlyph c \<longleftrightarrow>
     c = 0x2022 \<or> c = 0x25CF \<or> c = 0x25E6 \<or> c = 0xF0B7 \<or> c = 0x2219 \<or> c = 0x00B7 \<or>
     c = 0x25CB \<or> c = 0x6F \<or> c = 0x2D \<or> c = 0x2013"

definition glyphRE :: "jsstring \<Rightarrow> jsstring option" where
  "glyphRE s =
     (case s of [] \<Rightarrow> None
      | c # cs \<Rightarrow>
          if isGlyph c then Some (optTab (dropWhile isSpace (dropWhile isGlyph cs)))
          else None)"

text \<open>\<open>s.replace(/^\t+/, "")\<close>.\<close>

definition removeLeadingTabs :: "jsstring \<Rightarrow> jsstring" where
  "removeLeadingTabs s = dropWhile (\<lambda>c. c = TAB) s"

text \<open>
  "Cross-platform bullet repair", \<open>normalizeBullets\<close>: for every paragraph
  \<^verbatim>\<open>
  var txt = pp.contents || "";
  // Sub-bullets first (so they don't get captured by primary)
  if (styles.subBullet && subBulletGlyphRE.test(txt)) {
      pp.contents = txt.replace(subBulletGlyphRE, "");
      pp.appliedParagraphStyle = styles.subBullet;
      pp.bulletsAndNumberingListType = ListType.BULLET_LIST;
      try { pp.clearOverrides(); } catch (_) {}
      continue;
  }
  if (styles.bullet && primaryBulletRE.test(txt)) { ... styles.bullet ... continue; }
  if (styles.bullet && dashBulletRE.test(txt)) { ... styles.bullet ... continue; }
  \<close>
\<close>

definition normalizeBulletsStep :: "styles \<Rightarrow> para \<Rightarrow> para" where
  "normalizeBulletsStep st pp =
     (let txt = contents pp in
      if subBullet st \<noteq> None \<and> reTest subBulletGlyphRE txt then
        pp\<lparr>contents := reRemove subBulletGlyphRE txt, appliedParagraphStyle := subBullet st,
           bulletsAndNumberingListType := BULLET_LIST, overrides := False\<rparr>
      else if bullet st \<noteq> None \<and> reTest primaryBulletRE txt then
        pp\<lparr>contents := reRemove primaryBulletRE txt, appliedParagraphStyle := bullet st,
           bulletsAndNumberingListType := BULLET_LIST, overrides := False\<rparr>
      else if bullet st \<noteq> None \<and> reTest dashBulletRE txt then
        pp\<lparr>contents := reRemove dashBulletRE txt, appliedParagraphStyle := bullet st,
           bulletsAndNumberingListType := BULLET_LIST, overrides := False\<rparr>
      else pp)"

primrec normalizeBullets :: "styles \<Rightarrow> para list \<Rightarrow> para list" where
  "normalizeBullets st [] = []"
| "normalizeBullets st (pp # pps) = normalizeBulletsStep st pp # normalizeBullets st pps"

text \<open>
  "Normalize bullets and lists (tightened detection)", the first
  \<open>normalizeBulletsAndLists\<close>: for every paragraph
  \<^verbatim>\<open>
  var txt = (p.contents || "").replace(/\s+$/,"");
  var srcName = ""; try { srcName = p.appliedParagraphStyle.name || ""; } catch(_) {}
  if (/Heading|Table/i.test(srcName)) continue;
  var hasGlyph = glyphRE.test(txt);
  var hasIndent = (p.leftIndent && p.leftIndent > 0);
  var isTrueList = (p.bulletsAndNumberingListType == ListType.BULLET_LIST);
  if (isTrueList || hasGlyph || hasIndent) {
      p.contents = txt.replace(glyphRE, "");
      p.appliedParagraphStyle = styles.bullet;
      p.bulletsAndNumberingListType = ListType.BULLET_LIST;
      try { p.clearOverrides(); } catch(_) {}
  }
  \<close>
\<close>

definition skipsHeadingOrTable :: "para \<Rightarrow> bool" where
  "skipsHeadingOrTable p \<longleftrightarrow>
     testI (str ''Heading'') (srcNameOf p) \<or> testI (str ''Table'') (srcNameOf p)"

definition normalizeBulletsAndListsStep :: "styles \<Rightarrow> para \<Rightarrow> para" where
  "normalizeBulletsAndListsStep st p =
     (let txt = trimEnd (contents p) in
      if skipsHeadingOrTable p then p
      else
        (let hasGlyph = reTest glyphRE txt;
             hasIndent = (0 < leftIndent p);
             isTrueList = (bulletsAndNumberingListType p = BULLET_LIST)
         in if isTrueList \<or> hasGlyph \<or> hasIndent then
              p\<lparr>contents := reRemove glyphRE txt, appliedParagraphStyle := bullet st,
                bulletsAndNumberingListType := BULLET_LIST, overrides := False\<rparr>
            else p))"

primrec normalizeBulletsAndLists :: "styles \<Rightarrow> para list \<Rightarrow> para list" where
  "normalizeBulletsAndLists st [] = []"
| "normalizeBulletsAndLists st (p # ps) =
     normalizeBulletsAndListsStep st p # normalizeBulletsAndLists st ps"

text \<open>
  "Normalize bullets and lists (tab-only + style-aware, no false positives)", the
  second \<open>normalizeBulletsAndLists\<close>, with the rolling flag \<open>prevWasBullet\<close>:
  \<^verbatim>\<open>
  var prevWasBullet = false;
  for (var k = 0; k < paras.length; k++) {
      var p   = paras[k];
      var txt = (p.contents || "").replace(/\s+$/,"");
      try {
          var sn = (p.appliedParagraphStyle && p.appliedParagraphStyle.name) || "";
          if (/^heading\s*\d+$/i.test(sn) || /^table/i.test(sn)) { prevWasBullet = false; continue; }
      } catch (_) {}
      var isTrueList   = (p.bulletsAndNumberingListType == ListType.BULLET_LIST);
      var hasGlyph     = glyphRE.test(txt);
      var startsWithTab= /^\t/.test(txt);
      var styleIsListy = looksListyStyle(p);
      var shouldBeBullet = isTrueList || hasGlyph || (startsWithTab && (styleIsListy || prevWasBullet));
      if (shouldBeBullet) {
          p.contents = txt.replace(glyphRE, "").replace(/^\t+/, "");
          p.appliedParagraphStyle = styles.bullet || p.appliedParagraphStyle;
          p.bulletsAndNumberingListType = ListType.BULLET_LIST;
          try { p.clearOverrides(); } catch(_) {}
          prevWasBullet = true;
      } else {
          prevWasBullet = false;
      }
  }
  \<close>
\<close>

text \<open>\<open>looksListyStyle(p)\<close>: \<open>/list|bullet/i.test(n)\<close> on the style's name.\<close>

definition looksListyStyle :: "para \<Rightarrow> bool" where
  "looksListyStyle p \<longleftrightarrow>
     testI (str ''list'') (srcNameOf p) \<or> testI (str ''bullet'') (srcNameOf p)"

text \<open>\<open>/^heading\s*\d+$/i.test(sn) || /^table/i.test(sn)\<close>.\<close>

definition isHeadingOrTable :: "para \<Rightarrow> bool" where
  "isHeadingOrTable p \<longleftrightarrow>
     (let sn = srcNameOf p in
      (startsWithI (str ''heading'') sn \<and>
       (let r = dropWhile isSpace (drop 7 sn) in r \<noteq> [] \<and> list_all isDigit r)) \<or>
      startsWithI (str ''table'') sn)"

definition startsWithTab :: "para \<Rightarrow> bool" where
  "startsWithTab p \<longleftrightarrow>
     (case trimEnd (contents p) of [] \<Rightarrow> False | c # cs \<Rightarrow> c = TAB)"

definition hasGlyph :: "para \<Rightarrow> bool" where
  "hasGlyph p \<longleftrightarrow> reTest glyphRE (trimEnd (contents p))"

definition isTrueList :: "para \<Rightarrow> bool" where
  "isTrueList p \<longleftrightarrow> bulletsAndNumberingListType p = BULLET_LIST"

definition shouldBeBullet :: "bool \<Rightarrow> para \<Rightarrow> bool" where
  "shouldBeBullet prevWasBullet p \<longleftrightarrow>
     isTrueList p \<or> hasGlyph p \<or> (startsWithTab p \<and> (looksListyStyle p \<or> prevWasBullet))"

text \<open>One iteration: the flag before it and the paragraph give the flag and the paragraph after it.\<close>

definition tabAwareStep :: "styles \<Rightarrow> bool \<Rightarrow> para \<Rightarrow> bool \<times> para" where
  "tabAwareStep st prevWasBullet p =
     (let txt = trimEnd (contents p) in
      if isHeadingOrTable p then (False, p)
      else if shouldBeBullet prevWasBullet p then
        (True,
         p\<lparr>contents := removeLeadingTabs (reRemove glyphRE txt),
           appliedParagraphStyle :=
             (if bullet st \<noteq> None then bullet st else appliedParagraphStyle p),
           bulletsAndNumberingListType := BULLET_LIST, overrides := False\<rparr>)
      else (False, p))"

fun tabAwareLoop :: "styles \<Rightarrow> bool \<Rightarrow> para list \<Rightarrow> para list" where
  "tabAwareLoop st prevWasBullet [] = []"
| "tabAwareLoop st prevWasBullet (p # ps) =
     (let (prevWasBullet', p') = tabAwareStep st prevWasBullet p
      in p' # tabAwareLoop st prevWasBullet' ps)"

definition normalizeBulletsAndListsTab :: "styles \<Rightarrow> para list \<Rightarrow> para list" where
  "normalizeBulletsAndListsTab st ps = tabAwareLoop st False ps"

text \<open>
  The value of \<open>prevWasBullet\<close> at the start of iteration \<open>k\<close> of that loop, started
  with the given value.
\<close>

fun prevWasBulletAt :: "styles \<Rightarrow> bool \<Rightarrow> para list \<Rightarrow> nat \<Rightarrow> bool" where
  "prevWasBulletAt st prev ps 0 = prev"
| "prevWasBulletAt st prev [] (Suc k) = prev"
| "prevWasBulletAt st prev (p # ps) (Suc k) =
     prevWasBulletAt st (fst (tabAwareStep st prev p)) ps k"

text \<open>A paragraph with default properties, for examples.\<close>

definition plainPara :: "jsstring \<Rightarrow> jsstring \<Rightarrow> para" where
  "plainPara style txt =
     \<lparr>contents = txt, appliedParagraphStyle = Some (ParagraphStyle style),
      leftIndent = 0, bulletsAndNumberingListType = NO_LIST, overrides = True\<rparr>"

text \<open>
  An example story: a body paragraph, a tabbed paragraph in a list style, a tabbed
  body paragraph, a heading, and another tabbed body paragraph.
\<close>

definition exampleStory :: "para list" where
  "exampleStory =
     [plainPara (str ''Body'') (str ''Intro''),
      plainPara (str ''List Paragraph'') (TAB # str ''first''),
      plainPara (str ''Body'') (TAB # str ''second''),
      plainPara (str ''Heading 1'') (str ''Title''),
      plainPara (str ''Body'') (TAB # str ''third'')]"

section \<open>Hyperlink classifier\<close>



















section \<open>Properties of the sanitizer\<close>

lemma trimBoth_Nil: "trimBoth [] = []"
  by (simp add: trimBoth_def trimStart_def trimEnd_def)

lemma removeSpaces_Nil_iff: "removeSpaces s = [] \<longleftrightarrow> whitespaceOnly s"
  by (simp add: removeSpaces_def whitespaceOnly_def filter_empty_conv list_all_iff)

lemma dropWhile_snoc_keep: "\<not> P x \<Longrightarrow> \<exists>ys. dropWhile P (zs @ [x]) = ys @ [x]"
  by (induction zs) auto

lemma trimEnd_Cons_keep:
  assumes "\<not> isSpace x"
  shows "\<exists>ys. trimEnd (x # t) = x # ys"
proof -
  obtain ys where "dropWhile isSpace (rev t @ [x]) = ys @ [x]"
    using dropWhile_snoc_keep[of isSpace x "rev t"] assms by blast
  then show ?thesis by (simp add: trimEnd_def)
qed

lemma trimBoth_Nil_iff: "trimBoth s = [] \<longleftrightarrow> whitespaceOnly s"
proof
  assume e: "trimBoth s = []"
  show "whitespaceOnly s"
  proof (cases "dropWhile isSpace s")
    case Nil
    then show ?thesis by (simp add: whitespaceOnly_def list_all_iff dropWhile_eq_Nil_conv)
  next
    case (Cons x t)
    then have "\<not> isSpace x" using hd_dropWhile[of isSpace s] by auto
    then obtain ys where "trimEnd (x # t) = x # ys" using trimEnd_Cons_keep by blast
    with e Cons show ?thesis by (simp add: trimBoth_def trimStart_def)
  qed
next
  assume "whitespaceOnly s"
  then have d: "dropWhile isSpace s = []" by (simp add: whitespaceOnly_def list_all_iff)
  show "trimBoth s = []" unfolding trimBoth_def trimStart_def trimEnd_def d by simp
qed

lemma trimBoth_ends:
  assumes "trimBoth s \<noteq> []"
  shows "\<not> isSpace (hd (trimBoth s)) \<and> \<not> isSpace (last (trimBoth s))"
proof -
  obtain x t where c: "dropWhile isSpace s = x # t"
    using assms by (cases "dropWhile isSpace s") (auto simp: trimBoth_def trimStart_def trimEnd_def)
  then have nx: "\<not> isSpace x" using hd_dropWhile[of isSpace s] by auto
  then obtain ys where k: "trimEnd (x # t) = x # ys" using trimEnd_Cons_keep by blast
  have tb: "trimBoth s = trimEnd (x # t)" using c by (simp add: trimBoth_def trimStart_def)
  have h: "\<not> isSpace (hd (trimBoth s))" using tb k nx by simp
  have ne: "dropWhile isSpace (rev (x # t)) \<noteq> []" using tb assms by (simp add: trimEnd_def)
  have "last (trimBoth s) = hd (dropWhile isSpace (rev (x # t)))"
    using ne unfolding tb trimEnd_def by (simp add: last_rev)
  moreover have "\<not> isSpace (hd (dropWhile isSpace (rev (x # t))))"
    using ne by (rule hd_dropWhile)
  ultimately show ?thesis using h by simp
qed

lemma trimBoth_fixed:
  assumes "p \<noteq> []" "\<not> isSpace (hd p)" "\<not> isSpace (last p)"
  shows "trimBoth p = p"
proof -
  have a: "dropWhile isSpace p = p" using assms(1,2) by (cases p) auto
  have "rev p \<noteq> []" "\<not> isSpace (hd (rev p))" using assms(1,3) by (simp_all add: hd_rev)
  then have "dropWhile isSpace (rev p) = rev p" by (cases "rev p") auto
  then show ?thesis using a by (simp add: trimBoth_def trimStart_def trimEnd_def)
qed

lemma trimBoth_idem: "trimBoth (trimBoth s) = trimBoth s"
proof (cases "trimBoth s = []")
  case True
  then show ?thesis by (simp add: trimBoth_Nil)
next
  case False
  then show ?thesis using trimBoth_ends[OF False] by (intro trimBoth_fixed) auto
qed

lemma set_trimBoth: "set (trimBoth s) \<subseteq> set s"
proof -
  have "set (trimBoth s) \<subseteq> set (dropWhile isSpace s)"
    unfolding trimBoth_def trimStart_def trimEnd_def
    using set_dropWhileD[of _ isSpace "rev (dropWhile isSpace s)"] by auto
  also have "\<dots> \<subseteq> set s" using set_dropWhileD[of _ isSpace s] by auto
  finally show ?thesis .
qed

lemma blank_after_trim: "removeSpaces (trimBoth c) = [] \<longleftrightarrow> trimBoth c = []"
  using removeSpaces_Nil_iff[of "trimBoth c"] trimBoth_Nil_iff[of "trimBoth c"]
  by (simp add: trimBoth_idem)

lemma trimLoop_step:
  "trimLoop i ps =
     (if i < length ps then
        (case trimOrSkip (ps ! i) of
           None \<Rightarrow> trimLoop i (removeAt i ps)
         | Some q \<Rightarrow> trimLoop (Suc i) (ps[i := q]))
      else ps)"
proof (cases "i < length ps")
  case False
  then show ?thesis by (subst trimLoop.simps) simp
next
  case True
  have r: "removeAt i (ps[i := q]) = removeAt i ps" for q
    by (simp add: removeAt_def)
  show ?thesis
    using True
    by (subst trimLoop.simps)
      (simp add: readContents_def writeContents_def removeParagraph_def trimOrSkip_def
        blank_after_trim r Let_def)
qed

lemma trimLoop_eq:
  "trimLoop i ps = take i ps @ List.map_filter trimOrSkip (drop i ps)"
proof (induction "length ps - i" arbitrary: i ps rule: less_induct)
  case less
  show ?case
  proof (cases "i < length ps")
    case False
    then show ?thesis by (subst trimLoop_step) simp
  next
    case True
    have d: "drop i ps = ps ! i # drop (Suc i) ps" using True by (simp add: Cons_nth_drop_Suc)
    show ?thesis
    proof (cases "trimOrSkip (ps ! i)")
      case None
      have "trimLoop i ps = trimLoop i (removeAt i ps)"
        using True None by (subst trimLoop_step) simp
      also have "\<dots> = take i (removeAt i ps) @ List.map_filter trimOrSkip (drop i (removeAt i ps))"
        using True by (intro less.hyps) (simp add: removeAt_def)
      also have "take i (removeAt i ps) = take i ps" using True by (simp add: removeAt_def)
      also have "drop i (removeAt i ps) = drop (Suc i) ps" using True by (simp add: removeAt_def)
      finally show ?thesis using None d by simp
    next
      case (Some q)
      have "trimLoop i ps = trimLoop (Suc i) (ps[i := q])"
        using True Some by (subst trimLoop_step) simp
      also have "\<dots> = take (Suc i) (ps[i := q]) @
          List.map_filter trimOrSkip (drop (Suc i) (ps[i := q]))"
        using True by (intro less.hyps) simp
      also have "take (Suc i) (ps[i := q]) = take i ps @ [q]"
        using True by (simp add: take_Suc_conv_app_nth)
      also have "drop (Suc i) (ps[i := q]) = drop (Suc i) ps" by simp
      finally show ?thesis using Some d by simp
    qed
  qed
qed

lemma trimAndRemoveEmpties_eq: "trimAndRemoveEmpties ps = trimAndPruneOrSkip ps"
  by (simp add: trimAndRemoveEmpties_def trimAndPruneOrSkip_def trimLoop_eq)

lemma trimOrSkip_imported:
  "trimOrSkip (importedParagraph c) =
     (if trimBoth c \<noteq> [] then Some (importedParagraph (trimBoth c)) else None)"
  by (simp add: trimOrSkip_def importedParagraph_def)

lemma trimAndPruneOrSkip_imported:
  "trimAndPruneOrSkip (map importedParagraph cs) = map importedParagraph (trimAndPruneSpec cs)"
  by (induction cs)
    (simp_all add: trimAndPruneOrSkip_def trimAndPruneSpec_def List.map_filter_simps
      trimOrSkip_imported)

lemma trimmedContents_eq: "trimmedContents cs = trimAndPruneSpec cs"
proof -
  have "map contents (map importedParagraph xs) = xs" for xs
    by (induction xs) (simp_all add: importedParagraph_def)
  then show ?thesis
    by (simp add: trimmedContents_def trimAndRemoveEmpties_eq trimAndPruneOrSkip_imported)
qed

lemma trimOrSkip_throwsOn: "trimOrSkip p = Some q \<Longrightarrow> throwsOn q = throwsOn p"
  by (auto simp: trimOrSkip_def split: if_splits)


lemma trimOrSkip_trimmed:
  assumes "trimOrSkip p = Some q" and "throwsOn q = []"
  shows "contents q = trimBoth (contents p) \<and> contents q \<noteq> []"
  using assms by (auto simp: trimOrSkip_def split: if_splits)

lemma trimAndPruneOrSkip_member:
  "q \<in> set (trimAndPruneOrSkip ps) \<longleftrightarrow> (\<exists>p\<in>set ps. trimOrSkip p = Some q)"
  by (induction ps) (auto simp: trimAndPruneOrSkip_def List.map_filter_simps split: option.splits)


lemma trimAndPruneOrSkip_append:
  "trimAndPruneOrSkip (xs @ ys) = trimAndPruneOrSkip xs @ trimAndPruneOrSkip ys"
  by (induction xs)
    (simp_all add: trimAndPruneOrSkip_def List.map_filter_simps split: option.splits)

lemma trimAndPruneSpec_member:
  assumes "p \<in> set (trimAndPruneSpec ps)"
  shows "p \<noteq> [] \<and> \<not> whitespaceOnly p \<and> \<not> isSpace (hd p) \<and> \<not> isSpace (last p) \<and> trimBoth p = p"
proof -
  from assms obtain q where q: "p = trimBoth q" "p \<noteq> []" by (auto simp: trimAndPruneSpec_def)
  have "\<not> isSpace (hd p)" "\<not> isSpace (last p)" using trimBoth_ends q by auto
  moreover have "trimBoth p = p" using q trimBoth_idem by simp
  moreover have "\<not> whitespaceOnly p" using q(2) \<open>trimBoth p = p\<close> trimBoth_Nil_iff by metis
  ultimately show ?thesis using q by simp
qed


lemma trimAndPruneSpec_append:
  "trimAndPruneSpec (xs @ ys) = trimAndPruneSpec xs @ trimAndPruneSpec ys"
  by (simp add: trimAndPruneSpec_def)

lemma collapse_nonCR: "c \<noteq> CR \<Longrightarrow> collapseReturns (c # t) = c # collapseReturns t"
  by (simp add: isCR_def)


lemma takeWhile_run: "t = [] \<or> hd t \<noteq> CR \<Longrightarrow> takeWhile isCR (replicate n CR @ t) = replicate n CR"
  by (induction n) (auto simp: isCR_def takeWhile_eq_Nil_iff)

lemma dropWhile_run: "t = [] \<or> hd t \<noteq> CR \<Longrightarrow> dropWhile isCR (replicate n CR @ t) = t"
  by (induction n) (auto simp: isCR_def dropWhile_eq_self_iff)

lemma collapse_run:
  assumes "t = [] \<or> hd t \<noteq> CR"
  shows "collapseReturns (replicate n CR @ t) = replicate (min n 2) CR @ collapseReturns t"
proof -
  consider "n = 0" | "n = 1" | "n = 2" | "3 \<le> n" by linarith
  then show ?thesis
  proof cases
    case 1 then show ?thesis by simp
  next
    case 2
    have "takeWhile isCR (CR # t) = [CR]" using takeWhile_run[OF assms, of 1] by simp
    then show ?thesis using 2 by simp
  next
    case 3
    have a: "takeWhile isCR (CR # CR # t) = [CR, CR]" using takeWhile_run[OF assms, of 2] by (simp add: numeral_2_eq_2)
    have b: "takeWhile isCR (CR # t) = [CR]" using takeWhile_run[OF assms, of 1] by simp
    show ?thesis using 3 a b by (simp add: numeral_2_eq_2)
  next
    case 4
    then obtain m where m: "n = Suc m" by (cases n) auto
    have a: "takeWhile isCR (CR # replicate m CR @ t) = replicate n CR"
      using takeWhile_run[OF assms, of n] m by simp
    have b: "dropWhile isCR (CR # replicate m CR @ t) = t"
      using dropWhile_run[OF assms, of n] m by simp
    have "collapseReturns (CR # replicate m CR @ t) = CR # CR # collapseReturns t"
      using 4 by (subst collapseReturns.simps) (simp only: a b length_replicate if_True)
    then show ?thesis using 4 m by (simp add: numeral_2_eq_2)
  qed
qed

lemma last_dropWhile: "dropWhile P xs \<noteq> [] \<Longrightarrow> last (dropWhile P xs) = last xs"
  by (metis last_appendR takeWhile_dropWhile_id)

lemma collapse_append:
  "pre = [] \<or> last pre \<noteq> CR \<Longrightarrow> collapseReturns (pre @ t) = collapseReturns pre @ collapseReturns t"
proof (induction pre rule: collapseReturns.induct)
  case 1
  then show ?case by simp
next
  case (2 c cs)
  have l: "last (c # cs) \<noteq> CR" using 2(3) by simp
  have m: "last (c # cs) \<in> set (c # cs)" by (rule last_in_set) simp
  have n: "\<not> isCR (last (c # cs))" using l by (simp add: isCR_def)
  have tw: "takeWhile isCR ((c # cs) @ t) = takeWhile isCR (c # cs)"
    using m n by (rule takeWhile_append1)
  have dw: "dropWhile isCR ((c # cs) @ t) = dropWhile isCR (c # cs) @ t"
    using m n by (rule dropWhile_append1)
  show ?case
  proof (cases "3 \<le> length (takeWhile isCR (c # cs))")
    case True
    have ne: "dropWhile isCR (c # cs) \<noteq> []"
      using m n by (metis dropWhile_eq_Nil_conv)
    have "last (dropWhile isCR (c # cs)) \<noteq> CR" using last_dropWhile[OF ne] l by simp
    then have ih: "collapseReturns (dropWhile isCR (c # cs) @ t) =
        collapseReturns (dropWhile isCR (c # cs)) @ collapseReturns t"
      using "2.IH"(1)[OF True] by simp
    have "collapseReturns ((c # cs) @ t) = CR # CR # collapseReturns (dropWhile isCR ((c # cs) @ t))"
      using True tw by (metis append_Cons collapseReturns.simps(2))
    also have "\<dots> = CR # CR # collapseReturns (dropWhile isCR (c # cs)) @ collapseReturns t"
      using ih dw by simp
    also have "\<dots> = collapseReturns (c # cs) @ collapseReturns t"
      using True by (metis append_Cons collapseReturns.simps(2))
    finally show ?thesis .
  next
    case False
    have c: "cs = [] \<or> last cs \<noteq> CR" using l by (cases cs) auto
    have ih: "collapseReturns (cs @ t) = collapseReturns cs @ collapseReturns t"
      using "2.IH"(2)[OF False c] .
    have "collapseReturns ((c # cs) @ t) = c # collapseReturns (cs @ t)"
      using False tw by (metis append_Cons collapseReturns.simps(2))
    also have "\<dots> = collapseReturns (c # cs) @ collapseReturns t"
      using False ih by (metis append_Cons collapseReturns.simps(2))
    finally show ?thesis .
  qed
qed

lemma collapse_last:
  "pre \<noteq> [] \<Longrightarrow> last pre \<noteq> CR \<Longrightarrow> collapseReturns pre \<noteq> [] \<and> last (collapseReturns pre) = last pre"
proof (induction pre rule: collapseReturns.induct)
  case 1
  then show ?case by simp
next
  case (2 c cs)
  have m: "last (c # cs) \<in> set (c # cs)" by (rule last_in_set) simp
  have n: "\<not> isCR (last (c # cs))" using 2(4) by (simp add: isCR_def)
  show ?case
  proof (cases "3 \<le> length (takeWhile isCR (c # cs))")
    case True
    have ne: "dropWhile isCR (c # cs) \<noteq> []"
      using m n by (metis dropWhile_eq_Nil_conv)
    have ld: "last (dropWhile isCR (c # cs)) = last (c # cs)" using last_dropWhile[OF ne] .
    have ih: "collapseReturns (dropWhile isCR (c # cs)) \<noteq> [] \<and>
        last (collapseReturns (dropWhile isCR (c # cs))) = last (dropWhile isCR (c # cs))"
      using "2.IH"(1)[OF True ne] ld 2(4) by simp
    have e: "collapseReturns (c # cs) = CR # CR # collapseReturns (dropWhile isCR (c # cs))"
      using True by (metis collapseReturns.simps(2))
    show ?thesis unfolding e using ih ld by simp
  next
    case False
    have e: "collapseReturns (c # cs) = c # collapseReturns cs"
      using False by (metis collapseReturns.simps(2))
    show ?thesis
    proof (cases "cs = []")
      case True
      then show ?thesis unfolding e by simp
    next
      case nonempty: False
      then have "last cs \<noteq> CR" using 2(4) by simp
      then have "collapseReturns cs \<noteq> [] \<and> last (collapseReturns cs) = last cs"
        using "2.IH"(2)[OF False nonempty] by simp
      then show ?thesis unfolding e using nonempty by simp
    qed
  qed
qed


lemma paragraphsOf_append:
  "pre \<noteq> [] \<Longrightarrow> last pre \<noteq> CR \<Longrightarrow> paragraphsOf (pre @ CR # t) = paragraphsOf pre @ paragraphsOf t"
proof (induction pre)
  case Nil
  then show ?case by simp
next
  case (Cons c cs)
  show ?case
  proof (cases "cs = []")
    case True
    then show ?thesis using Cons.prems by simp
  next
    case False
    then have ih: "paragraphsOf (cs @ CR # t) = paragraphsOf cs @ paragraphsOf t"
      using Cons by simp
    have ne: "paragraphsOf cs \<noteq> []" using False by (cases cs) (auto split: list.splits)
    show ?thesis using ih ne by (cases "paragraphsOf cs") auto
  qed
qed

lemma paragraphsOf_returns: "paragraphsOf (replicate n CR @ t) = replicate n [] @ paragraphsOf t"
  by (induction n) auto

lemma paragraphsOf_free: "p \<in> set (paragraphsOf t) \<Longrightarrow> CR \<notin> set p"
proof (induction t arbitrary: p)
  case Nil
  then show ?case by simp
next
  case (Cons c cs)
  then show ?case by (cases "paragraphsOf cs") (auto split: if_splits)
qed





lemma sanitizedParagraphs_member:
  assumes "p \<in> set (sanitizedParagraphs t)"
  shows "p \<noteq> [] \<and> \<not> whitespaceOnly p \<and> trimBoth p = p \<and> CR \<notin> set p"
proof -
  let ?ps = "paragraphsOf (insertHeadingBreaks (collapseReturns t))"
  have m: "p \<in> set (trimAndPruneSpec ?ps)"
    using assms by (simp add: sanitizedParagraphs_def trimmedContents_eq)
  then obtain q where q: "q \<in> set ?ps" "p = trimBoth q" by (auto simp: trimAndPruneSpec_def)
  have "CR \<notin> set q" using paragraphsOf_free[OF q(1)] .
  then have "CR \<notin> set p" using q(2) set_trimBoth by blast
  then show ?thesis using trimAndPruneSpec_member[OF m] by simp
qed






section \<open>The sanitizer claims\<close>


lemma trimAndPruneOrSkip_contents:
  assumes "\<forall>p\<in>set ps. throwsOn p = []"
  shows "map contents (trimAndPruneOrSkip ps) = trimAndPruneSpec (map contents ps)"
  using assms
  by (induction ps)
    (simp_all add: trimAndPruneOrSkip_def trimAndPruneSpec_def List.map_filter_simps
      trimOrSkip_def)

lemma trimAndPruneSpec_length:
  "length (trimAndPruneSpec (map contents ps)) =
     length (filter (\<lambda>p. \<not> whitespaceOnly (contents p)) ps)"
proof -
  have "filter (\<lambda>c. c \<noteq> []) (map trimBoth (map contents ps)) =
      map (\<lambda>p. trimBoth (contents p)) (filter (\<lambda>p. \<not> whitespaceOnly (contents p)) ps)"
    by (simp add: filter_map comp_def trimBoth_Nil_iff)
  then show ?thesis by (simp add: trimAndPruneSpec_def)
qed

lemma trimOrSkip_survivor:
  assumes "trimOrSkip p = Some q" and "throwsOn q = []"
  shows "contents q = trimBoth (contents p) \<and> contents q \<noteq> [] \<and> \<not> whitespaceOnly (contents q) \<and>
         \<not> isSpace (hd (contents q)) \<and> \<not> isSpace (last (contents q))"
proof -
  note k = trimOrSkip_trimmed[OF assms]
  have c: "contents q = trimBoth (contents p)" "contents q \<noteq> []"
    using k[THEN conjunct1] k[THEN conjunct2] by blast+
  have n: "trimBoth (contents p) \<noteq> []" using c(2) unfolding c(1) .
  have e: "\<not> isSpace (hd (contents q))" "\<not> isSpace (last (contents q))"
    unfolding c(1) using trimBoth_ends[OF n] by blast+
  have "trimBoth (contents q) = contents q" unfolding c(1) by (rule trimBoth_idem)
  then have "trimBoth (contents q) \<noteq> []" using c(2) by simp
  then have "\<not> whitespaceOnly (contents q)" by (simp add: trimBoth_Nil_iff)
  then show ?thesis using c e by simp
qed

text \<open>
  Claim C7, as stated, fails. The body of the loop stands in a \<open>try\<close> with an empty
  \<open>catch\<close>, so a paragraph on which an operation of the host throws is passed over.
  In a story with the paragraphs "a", a blank paragraph that cannot be written, a
  blank paragraph that cannot be removed and "b", both blank paragraphs are still in
  the story after the pass: the first as it was, a single space, the second trimmed
  to the empty paragraph. Paragraphs that are white space only remain.
\<close>

theorem blank_paragraph_survives_counterexample:
  "trimAndRemoveEmpties
     [importedParagraph (str ''a''),
      (importedParagraph [0x20])\<lparr>throwsOn := [WriteContents]\<rparr>,
      (importedParagraph [0x20])\<lparr>throwsOn := [RemoveParagraph]\<rparr>,
      importedParagraph (str ''b'')] =
     [importedParagraph (str ''a''),
      (importedParagraph [0x20])\<lparr>throwsOn := [WriteContents]\<rparr>,
      (importedParagraph [])\<lparr>throwsOn := [RemoveParagraph]\<rparr>,
      importedParagraph (str ''b'')] \<and>
   whitespaceOnly (contents ((importedParagraph [0x20])\<lparr>throwsOn := [WriteContents]\<rparr>)) \<and>
   isSpace (hd (contents ((importedParagraph [0x20])\<lparr>throwsOn := [WriteContents]\<rparr>))) \<and>
   whitespaceOnly (contents ((importedParagraph [])\<lparr>throwsOn := [RemoveParagraph]\<rparr>))"
  by code_simp

text \<open>
  Claim C7, amended. The loop computes the pass of the specification with its rule
  for failures: paragraph by paragraph and in order, a paragraph that cannot be read
  or written is left as it is, a paragraph that is empty after trimming and cannot be
  removed stays, trimmed, and every other paragraph is trimmed and, when it is empty
  after trimming, deleted; the paragraph that moves into a deleted paragraph's index
  is not skipped. Hence every paragraph of the result on which no operation of the
  host throws is the trimmed text of a paragraph of the story, is not empty and not
  white space only, and neither starts nor ends with a white space character; and
  every paragraph of the story whose read or write throws is in the result unchanged.
  When no operation throws on any paragraph of the story, the contents after the pass
  are the trimmed contents of exactly the paragraphs that were not white space only,
  in order, and no paragraph of the result is white space only or has leading or
  trailing white space.
\<close>

theorem trim_and_prune_with_failures:
  "trimAndRemoveEmpties ps = trimAndPruneOrSkip ps \<and>
   (\<forall>q \<in> set (trimAndRemoveEmpties ps). throwsOn q = [] \<longrightarrow>
      (\<exists>p \<in> set ps. contents q = trimBoth (contents p)) \<and>
      contents q \<noteq> [] \<and> \<not> whitespaceOnly (contents q) \<and>
      \<not> isSpace (hd (contents q)) \<and> \<not> isSpace (last (contents q))) \<and>
   (\<forall>p \<in> set ps. ReadContents \<in> set (throwsOn p) \<or> WriteContents \<in> set (throwsOn p) \<longrightarrow>
      p \<in> set (trimAndRemoveEmpties ps)) \<and>
   ((\<forall>p \<in> set ps. throwsOn p = []) \<longrightarrow>
      map contents (trimAndRemoveEmpties ps) =
        map trimBoth (filter (\<lambda>c. \<not> whitespaceOnly c) (map contents ps)) \<and>
      map contents (trimAndRemoveEmpties ps) = trimAndPruneSpec (map contents ps) \<and>
      length (trimAndRemoveEmpties ps) =
        length (filter (\<lambda>p. \<not> whitespaceOnly (contents p)) ps) \<and>
      (\<forall>q \<in> set (trimAndRemoveEmpties ps).
         contents q \<noteq> [] \<and> \<not> whitespaceOnly (contents q) \<and>
         \<not> isSpace (hd (contents q)) \<and> \<not> isSpace (last (contents q))))"
proof -
  have 1: "trimAndRemoveEmpties ps = trimAndPruneOrSkip ps"
    by (rule trimAndRemoveEmpties_eq)
  have 2: "\<forall>q \<in> set (trimAndPruneOrSkip ps). throwsOn q = [] \<longrightarrow>
      (\<exists>p \<in> set ps. contents q = trimBoth (contents p)) \<and>
      contents q \<noteq> [] \<and> \<not> whitespaceOnly (contents q) \<and>
      \<not> isSpace (hd (contents q)) \<and> \<not> isSpace (last (contents q))"
  proof (intro ballI impI)
    fix q assume q: "q \<in> set (trimAndPruneOrSkip ps)" "throwsOn q = []"
    then obtain p where p: "p \<in> set ps" "trimOrSkip p = Some q"
      using trimAndPruneOrSkip_member by blast
    show "(\<exists>p \<in> set ps. contents q = trimBoth (contents p)) \<and>
      contents q \<noteq> [] \<and> \<not> whitespaceOnly (contents q) \<and>
      \<not> isSpace (hd (contents q)) \<and> \<not> isSpace (last (contents q))"
      using trimOrSkip_survivor[OF p(2) q(2)] p(1) by blast
  qed
  have 3: "\<forall>p \<in> set ps. ReadContents \<in> set (throwsOn p) \<or> WriteContents \<in> set (throwsOn p) \<longrightarrow>
      p \<in> set (trimAndPruneOrSkip ps)"
  proof (intro ballI impI)
    fix p assume p: "p \<in> set ps"
      "ReadContents \<in> set (throwsOn p) \<or> WriteContents \<in> set (throwsOn p)"
    then have "trimOrSkip p = Some p" by (simp add: trimOrSkip_def)
    then show "p \<in> set (trimAndPruneOrSkip ps)"
      using p(1) trimAndPruneOrSkip_member by blast
  qed
  have 4: "map contents (trimAndPruneOrSkip ps) =
        map trimBoth (filter (\<lambda>c. \<not> whitespaceOnly c) (map contents ps)) \<and>
      map contents (trimAndPruneOrSkip ps) = trimAndPruneSpec (map contents ps) \<and>
      length (trimAndPruneOrSkip ps) =
        length (filter (\<lambda>p. \<not> whitespaceOnly (contents p)) ps) \<and>
      (\<forall>q \<in> set (trimAndPruneOrSkip ps).
         contents q \<noteq> [] \<and> \<not> whitespaceOnly (contents q) \<and>
         \<not> isSpace (hd (contents q)) \<and> \<not> isSpace (last (contents q)))"
    if h: "\<forall>p \<in> set ps. throwsOn p = []"
  proof -
    have a: "map contents (trimAndPruneOrSkip ps) = trimAndPruneSpec (map contents ps)"
      using trimAndPruneOrSkip_contents[OF h] .
    have b: "trimAndPruneSpec (map contents ps) =
        map trimBoth (filter (\<lambda>c. \<not> whitespaceOnly c) (map contents ps))"
      by (simp add: trimAndPruneSpec_def filter_map comp_def trimBoth_Nil_iff)
    have "length (map contents (trimAndPruneOrSkip ps)) =
        length (filter (\<lambda>p. \<not> whitespaceOnly (contents p)) ps)"
      unfolding a by (rule trimAndPruneSpec_length)
    then have c: "length (trimAndPruneOrSkip ps) =
        length (filter (\<lambda>p. \<not> whitespaceOnly (contents p)) ps)" by simp
    have d: "\<forall>q \<in> set (trimAndPruneOrSkip ps). throwsOn q = []"
      using h trimAndPruneOrSkip_member trimOrSkip_throwsOn by metis
    show ?thesis using a b c d 2 by simp
  qed
  show ?thesis unfolding 1 using 2 3 4 by blast
qed

text \<open>
  The amended claim on a story in which a blank paragraph cannot be written, another
  cannot be removed, and blank paragraphs stand at the start and in a row; and on the
  same contents when no operation throws.
\<close>

theorem trim_and_prune_with_failures_witness:
  "trimAndRemoveEmpties
     [importedParagraph [0x20], importedParagraph [],
      importedParagraph (str '' a b ''),
      (importedParagraph [0x20])\<lparr>throwsOn := [WriteContents]\<rparr>,
      importedParagraph [0x09, 0x20],
      (importedParagraph [0x20])\<lparr>throwsOn := [RemoveParagraph]\<rparr>,
      importedParagraph (str ''c'')] =
     [importedParagraph (str ''a b''),
      (importedParagraph [0x20])\<lparr>throwsOn := [WriteContents]\<rparr>,
      (importedParagraph [])\<lparr>throwsOn := [RemoveParagraph]\<rparr>,
      importedParagraph (str ''c'')] \<and>
   throwsOn (importedParagraph (str ''a b'')) = [] \<and>
   contents (importedParagraph (str ''a b'')) = trimBoth (str '' a b '') \<and>
   \<not> whitespaceOnly (contents (importedParagraph (str ''a b''))) \<and>
   \<not> isSpace (hd (contents (importedParagraph (str ''a b'')))) \<and>
   \<not> isSpace (last (contents (importedParagraph (str ''a b'')))) \<and>
   WriteContents \<in> set (throwsOn ((importedParagraph [0x20])\<lparr>throwsOn := [WriteContents]\<rparr>)) \<and>
   map contents (trimAndRemoveEmpties (map importedParagraph
     [[0x20], [], [0x09, 0x20], str '' a b '', [CR], str ''c''])) = [str ''a b'', str ''c''] \<and>
   length (trimAndRemoveEmpties (map importedParagraph
     [[0x20], [], [0x09, 0x20], str '' a b '', [CR], str ''c''])) = 2"
proof -
  let ?w = "(importedParagraph [0x20])\<lparr>throwsOn := [WriteContents]\<rparr>"
  let ?r = "(importedParagraph [0x20])\<lparr>throwsOn := [RemoveParagraph]\<rparr>"
  let ?ps = "[importedParagraph [0x20], importedParagraph [],
      importedParagraph (str '' a b ''), ?w, importedParagraph [0x09, 0x20], ?r,
      importedParagraph (str ''c'')]"
  let ?qs = "[importedParagraph (str ''a b''), ?w,
      (importedParagraph [])\<lparr>throwsOn := [RemoveParagraph]\<rparr>, importedParagraph (str ''c'')]"
  let ?cs = "[[0x20], [], [0x09, 0x20], str '' a b '', [CR], str ''c'']"
  have e: "trimAndPruneOrSkip ?ps = ?qs"
    by code_simp
  note w = trim_and_prune_with_failures[of ?ps]
  have r: "trimAndRemoveEmpties ?ps = ?qs"
    using w[THEN conjunct1] e by simp
  have s: "\<forall>q \<in> set ?qs. throwsOn q = [] \<longrightarrow>
      (\<exists>p \<in> set ?ps. contents q = trimBoth (contents p)) \<and>
      contents q \<noteq> [] \<and> \<not> whitespaceOnly (contents q) \<and>
      \<not> isSpace (hd (contents q)) \<and> \<not> isSpace (last (contents q))"
    using w[THEN conjunct2, THEN conjunct1] unfolding r .
  have t: "throwsOn (importedParagraph (str ''a b'')) = []"
    by (simp add: importedParagraph_def)
  have a: "\<not> whitespaceOnly (contents (importedParagraph (str ''a b''))) \<and>
      \<not> isSpace (hd (contents (importedParagraph (str ''a b'')))) \<and>
      \<not> isSpace (last (contents (importedParagraph (str ''a b''))))"
    using s t by simp
  have b: "contents (importedParagraph (str ''a b'')) = trimBoth (str '' a b '')"
    by code_simp
  have c: "WriteContents \<in> set (throwsOn ?w)" by simp
  have h: "\<forall>p \<in> set (map importedParagraph ?cs). throwsOn p = []"
    by (simp add: importedParagraph_def)
  note v = trim_and_prune_with_failures[of "map importedParagraph ?cs",
      THEN conjunct2, THEN conjunct2, THEN conjunct2, THEN mp, OF h]
  have f: "trimAndPruneSpec ?cs = [str ''a b'', str ''c'']"
    by code_simp
  have m: "map contents (map importedParagraph ?cs) = ?cs"
    by (simp add: importedParagraph_def)
  have g: "map contents (trimAndRemoveEmpties (map importedParagraph ?cs)) =
      [str ''a b'', str ''c'']"
    using v[THEN conjunct2, THEN conjunct1] unfolding m f .
  have l: "length (trimAndRemoveEmpties (map importedParagraph ?cs)) = 2"
    using arg_cong[OF g, of length] by simp
  show ?thesis using r t a b c g l by blast
qed


text \<open>
  Claim C2, as stated, fails. A story with the paragraphs "a", two blank paragraphs
  and "b" leaves the sanitizer stage with the paragraphs "a" and "b": no blank
  paragraph is left where the run was, not one. A story that begins with three blank
  paragraphs before "b" leaves it with the single paragraph "b".
\<close>

theorem blank_run_counterexample:
  "paragraphsOf (str ''a'' @ [CR, CR, CR] @ str ''b'' @ [CR]) = [str ''a'', [], [], str ''b''] \<and>
   sanitizedParagraphs (str ''a'' @ [CR, CR, CR] @ str ''b'' @ [CR]) = [str ''a'', str ''b''] \<and>
   length (filter whitespaceOnly
     (sanitizedParagraphs (str ''a'' @ [CR, CR, CR] @ str ''b'' @ [CR]))) \<noteq> 1 \<and>
   paragraphsOf ([CR, CR, CR] @ str ''b'' @ [CR]) = [[], [], [], str ''b''] \<and>
   sanitizedParagraphs ([CR, CR, CR] @ str ''b'' @ [CR]) = [str ''b''] \<and>
   sanitize ([CR, CR, CR] @ str ''b'' @ [CR]) = str ''b'' @ [CR]"
  by code_simp

text \<open>
  Claim C2, amended. Take a run of \<open>N \<ge> 2\<close> blank paragraphs behind a paragraph
  that ends the text \<open>pre\<close>: the return that ends that paragraph and \<open>N\<close> more,
  followed by text that does not start with a return. The collapse of returns
  replaces these \<open>N + 1\<close> returns by two, so exactly one blank paragraph stands in
  that position after this pass. The trim-and-prune pass then deletes that paragraph
  as well: after the whole sanitizer stage the paragraphs before and behind the run
  are adjacent, and no paragraph that is white space only is left. In the loop itself
  a blank paragraph on which no operation of the host throws is deleted between any
  paragraphs \<open>xs\<close> before it and \<open>ys\<close> behind it, whatever fails on those.
\<close>

theorem blank_run_collapsed_then_pruned:
  assumes "2 \<le> N" and "pre \<noteq> []" and "last pre \<noteq> CR" and "post = [] \<or> hd post \<noteq> CR"
  shows "paragraphsOf (pre @ replicate (Suc N) CR @ post) =
           paragraphsOf pre @ replicate N [] @ paragraphsOf post \<and>
         collapseReturns (pre @ replicate (Suc N) CR @ post) =
           collapseReturns pre @ [CR, CR] @ collapseReturns post \<and>
         paragraphsOf (collapseReturns (pre @ replicate (Suc N) CR @ post)) =
           paragraphsOf (collapseReturns pre) @ [[]] @ paragraphsOf (collapseReturns post) \<and>
         sanitizedParagraphs (pre @ replicate (Suc N) CR @ post) =
           sanitizedParagraphs pre @ sanitizedParagraphs post \<and>
         (\<forall>p \<in> set (sanitizedParagraphs (pre @ replicate (Suc N) CR @ post)). \<not> whitespaceOnly p) \<and>
         (whitespaceOnly (contents b) \<and> throwsOn b = [] \<longrightarrow>
            trimAndRemoveEmpties (xs @ b # ys) = trimAndRemoveEmpties xs @ trimAndRemoveEmpties ys)"
proof -
  let ?t = "pre @ replicate (Suc N) CR @ post"
  have d: "whitespaceOnly (contents b) \<and> throwsOn b = [] \<longrightarrow>
      trimAndRemoveEmpties (xs @ b # ys) = trimAndRemoveEmpties xs @ trimAndRemoveEmpties ys"
  proof
    assume h: "whitespaceOnly (contents b) \<and> throwsOn b = []"
    then have "trimBoth (contents b) = []" by (simp add: trimBoth_Nil_iff)
    then have "trimOrSkip b = None" using h by (simp add: trimOrSkip_def)
    then have "trimAndPruneOrSkip (b # ys) = trimAndPruneOrSkip ys"
      by (simp add: trimAndPruneOrSkip_def List.map_filter_simps)
    then show "trimAndRemoveEmpties (xs @ b # ys) =
        trimAndRemoveEmpties xs @ trimAndRemoveEmpties ys"
      by (simp add: trimAndRemoveEmpties_eq trimAndPruneOrSkip_append)
  qed
  have p0: "paragraphsOf ?t = paragraphsOf pre @ replicate N [] @ paragraphsOf post"
    using paragraphsOf_append[OF assms(2,3), of "replicate N CR @ post"]
    by (simp add: paragraphsOf_returns)
  have "collapseReturns ?t = collapseReturns pre @ collapseReturns (replicate (Suc N) CR @ post)"
    using collapse_append[of pre] assms(3) by blast
  also have "collapseReturns (replicate (Suc N) CR @ post) = replicate (min (Suc N) 2) CR @ collapseReturns post"
    using collapse_run[OF assms(4)] .
  also have "min (Suc N) 2 = 2" using assms(1) by simp
  finally have c: "collapseReturns ?t = collapseReturns pre @ [CR, CR] @ collapseReturns post"
    by (simp add: numeral_2_eq_2)
  have l: "collapseReturns pre \<noteq> []" "last (collapseReturns pre) \<noteq> CR"
    using collapse_last[OF assms(2,3)] assms(3) by simp_all
  have p1: "paragraphsOf (collapseReturns ?t) =
      paragraphsOf (collapseReturns pre) @ [[]] @ paragraphsOf (collapseReturns post)"
    unfolding c using paragraphsOf_append[OF l, of "CR # collapseReturns post"] by simp
  have s: "sanitizedParagraphs ?t = sanitizedParagraphs pre @ sanitizedParagraphs post"
    using p1 by (simp add: sanitizedParagraphs_def insertHeadingBreaks_def trimmedContents_eq
        trimAndPruneSpec_append) (simp add: trimAndPruneSpec_def trimBoth_Nil)
  have "\<forall>p \<in> set (sanitizedParagraphs ?t). \<not> whitespaceOnly p"
    using sanitizedParagraphs_member by blast
  then show ?thesis using p0 c p1 s d by blast
qed

text \<open>
  The amended claim at a run of three blank paragraphs between "a" and "b"; and, in
  the loop, at a blank paragraph behind a paragraph that cannot be written.
\<close>

theorem blank_run_collapsed_then_pruned_witness:
  "(2::nat) \<le> 3 \<and> str ''a'' \<noteq> [] \<and> last (str ''a'') \<noteq> CR \<and> hd (str ''b'') \<noteq> CR \<and>
   paragraphsOf (str ''a'' @ replicate (Suc 3) CR @ str ''b'') = [str ''a'', [], [], [], str ''b''] \<and>
   paragraphsOf (collapseReturns (str ''a'' @ replicate (Suc 3) CR @ str ''b'')) =
     [str ''a'', [], str ''b''] \<and>
   sanitizedParagraphs (str ''a'' @ replicate (Suc 3) CR @ str ''b'') = [str ''a'', str ''b''] \<and>
   whitespaceOnly (contents (importedParagraph [0x20])) \<and>
   throwsOn (importedParagraph [0x20]) = [] \<and>
   trimAndRemoveEmpties
     ([(importedParagraph (str '' a''))\<lparr>throwsOn := [WriteContents]\<rparr>] @
      importedParagraph [0x20] # [importedParagraph (str ''b'')]) =
     [(importedParagraph (str '' a''))\<lparr>throwsOn := [WriteContents]\<rparr>,
      importedParagraph (str ''b'')]"
proof -
  have h: "(2::nat) \<le> 3" "str ''a'' \<noteq> []" "last (str ''a'') \<noteq> CR"
      "str ''b'' = [] \<or> hd (str ''b'') \<noteq> CR"
    by (simp_all add: str_def CR_def)
  have e: "paragraphsOf (str ''a'') = [str ''a'']" "paragraphsOf (str ''b'') = [str ''b'']"
      "paragraphsOf (collapseReturns (str ''a'')) = [str ''a'']"
      "paragraphsOf (collapseReturns (str ''b'')) = [str ''b'']"
      "sanitizedParagraphs (str ''a'') = [str ''a'']" "sanitizedParagraphs (str ''b'') = [str ''b'']"
    by code_simp+
  note w = blank_run_collapsed_then_pruned[OF h,
      of "importedParagraph [0x20]"
         "[(importedParagraph (str '' a''))\<lparr>throwsOn := [WriteContents]\<rparr>]"
         "[importedParagraph (str ''b'')]"]
  have 1: "paragraphsOf (str ''a'' @ replicate (Suc 3) CR @ str ''b'') = [str ''a'', [], [], [], str ''b'']"
    using w[THEN conjunct1] e(1,2) by (simp add: numeral_eq_Suc)
  have 2: "paragraphsOf (collapseReturns (str ''a'' @ replicate (Suc 3) CR @ str ''b'')) =
     [str ''a'', [], str ''b'']"
    using w[THEN conjunct2, THEN conjunct2, THEN conjunct1] e(3,4) by simp
  have 3: "sanitizedParagraphs (str ''a'' @ replicate (Suc 3) CR @ str ''b'') = [str ''a'', str ''b'']"
    using w[THEN conjunct2, THEN conjunct2, THEN conjunct2, THEN conjunct1] e(5,6) by simp
  have 4: "hd (str ''b'') \<noteq> CR" by (simp add: str_def CR_def)
  have 5: "whitespaceOnly (contents (importedParagraph [0x20]))"
      "throwsOn (importedParagraph [0x20]) = []"
    by code_simp+
  have 6: "trimAndRemoveEmpties [(importedParagraph (str '' a''))\<lparr>throwsOn := [WriteContents]\<rparr>] =
        [(importedParagraph (str '' a''))\<lparr>throwsOn := [WriteContents]\<rparr>]"
      "trimAndRemoveEmpties [importedParagraph (str ''b'')] = [importedParagraph (str ''b'')]"
    by code_simp+
  have 7: "trimAndRemoveEmpties
     ([(importedParagraph (str '' a''))\<lparr>throwsOn := [WriteContents]\<rparr>] @
      importedParagraph [0x20] # [importedParagraph (str ''b'')]) =
     [(importedParagraph (str '' a''))\<lparr>throwsOn := [WriteContents]\<rparr>,
      importedParagraph (str ''b'')]"
    using w[THEN conjunct2, THEN conjunct2, THEN conjunct2, THEN conjunct2, THEN conjunct2]
      5 unfolding 6 by simp
  show ?thesis using h(1,2,3) 4 1 2 3 5 7 by blast
qed

section \<open>Properties of the pagination loop\<close>

lemma addPageAfter_last: "ps \<noteq> [] \<Longrightarrow> addPageAfter (length ps - 1) pg ps = ps @ [pg]"
  by (simp add: addPageAfter_def)

lemma insideMargins_addedPage:
  "insideMargins (addedPage s) =
   insideMargins \<lparr>pageBounds = newPageBounds s, marginPrefs = newPageMargins s, textFrames = []\<rparr>"
  by (simp add: insideMargins_def addedPage_def)

lemma step_pages: "pages s \<noteq> [] \<Longrightarrow> pages (addPageAndFrame s) = pages s @ [addedPage s]"
  by (simp add: addPageAndFrame_def createFrameInsideMargins_def Let_def addPageAfter_def addedPage_def)

lemma step_chain:
  "textContainers (addPageAndFrame s) =
   textContainers s @ [\<lparr>geometricBounds = insideMargins (addedPage s), parentPage = Suc (length (pages s) - 1)\<rparr>]"
  by (simp add: addPageAndFrame_def createFrameInsideMargins_def Let_def insideMargins_addedPage)

lemma step_rest:
  "storyContent (addPageAndFrame s) = storyContent s"
  "newPageBounds (addPageAndFrame s) = newPageBounds s"
  "newPageMargins (addPageAndFrame s) = newPageMargins s"
  by (simp_all add: addPageAndFrame_def createFrameInsideMargins_def Let_def)

lemma step_area: "newFrameArea (addPageAndFrame s) = newFrameArea s"
  by (simp add: newFrameArea_def step_rest)

lemma step_capacity:
  "chainCapacity (textContainers (addPageAndFrame s)) = chainCapacity (textContainers s) + newFrameArea s"
  by (simp add: step_chain chainCapacity_def newFrameArea_def insideMargins_addedPage)

lemma pagesAscend_snoc:
  "pagesAscend (fs @ [f]) \<longleftrightarrow> pagesAscend fs \<and> (\<forall>g\<in>set fs. parentPage g < parentPage f)"
  by (auto simp: pagesAscend_def sorted_wrt_append)

lemma step_wellFormed:
  assumes "wellFormed s"
  shows "wellFormed (addPageAndFrame s)"
proof -
  have ne: "pages s \<noteq> []" using assms by (simp add: wellFormed_def)
  then have l: "Suc (length (pages s) - 1) = length (pages s)" by (cases "pages s") auto
  have b: "\<forall>g\<in>set (textContainers s). parentPage g < length (pages s)"
    using assms by (simp add: wellFormed_def list_all_iff)
  show ?thesis
    using assms b unfolding wellFormed_def step_chain step_pages[OF ne] l
    by (auto simp: pagesAscend_snoc list_all_iff less_Suc_eq)
qed


lemma flowResult_refl: "wellFormed s \<Longrightarrow> \<not> overflows s \<Longrightarrow> flowResult s s"
  by (simp add: flowResult_def)

lemma flowResult_step:
  assumes w: "wellFormed s" and r: "flowResult (addPageAndFrame s) s'"
  shows "flowResult s s'"
proof -
  let ?t = "addPageAndFrame s"
  have ne: "pages s \<noteq> []" using w by (simp add: wellFormed_def)
  then have l: "Suc (length (pages s) - 1) = length (pages s)" by (cases "pages s") auto
  let ?f = "\<lparr>geometricBounds = insideMargins (addedPage s), parentPage = length (pages s)\<rparr>"
  have pg: "pages ?t = pages s @ [addedPage s]" using step_pages[OF ne] .
  have ch: "textContainers ?t = textContainers s @ [?f]" using step_chain[of s] l by simp
  have pp: "prefix (pages s @ [addedPage s]) (pages s')" using r pg by (simp add: flowResult_def)
  have pc: "prefix (textContainers s @ [?f]) (textContainers s')" using r ch by (simp add: flowResult_def)
  obtain ps where ps: "pages s' = pages s @ addedPage s # ps" using pp by (auto simp: prefix_def)
  obtain cs where cs: "textContainers s' = textContainers s @ ?f # cs" using pc by (auto simp: prefix_def)
  have a: "pages s' ! length (pages s) = addedPage s" using ps by (simp add: nth_append)
  have la: "list_all (\<lambda>f. geometricBounds f = insideMargins (pages s' ! parentPage f) \<and>
                   Suc (length (pages s)) \<le> parentPage f) cs"
    using r unfolding flowResult_def pg ch cs by simp
  have lb: "list_all (\<lambda>f. geometricBounds f = insideMargins (pages s' ! parentPage f) \<and>
                   length (pages s) \<le> parentPage f) cs"
    using la by (auto simp: list_all_iff intro: Suc_leD)
  have len: "length (pages s') - length (pages s) = length (textContainers s') - length (textContainers s)"
    using r unfolding flowResult_def pg ch using ps cs by simp
  show ?thesis
    unfolding flowResult_def
    using r lb a len ps cs by (simp add: flowResult_def step_rest)
qed

lemma flow_partial_correct:
  assumes "flowOverflow s = Some s'"
  shows "wellFormed s \<longrightarrow> flowResult s s'"
proof (rule flowOverflow.raw_induct[where P = "\<lambda>s s'. wellFormed s \<longrightarrow> flowResult s s'", OF _ assms])
  fix f s s'
  assume ih: "\<And>x y. f x = Some y \<Longrightarrow> wellFormed x \<longrightarrow> flowResult x y"
    and eq: "(if overflows s then f (addPageAndFrame s) else Some s) = Some s'"
  show "wellFormed s \<longrightarrow> flowResult s s'"
  proof (cases "overflows s")
    case True
    then have "f (addPageAndFrame s) = Some s'" using eq by simp
    then have "wellFormed (addPageAndFrame s) \<longrightarrow> flowResult (addPageAndFrame s) s'" by (rule ih)
    then show ?thesis using step_wellFormed flowResult_step by blast
  next
    case False
    then have "s' = s" using eq by simp
    then show ?thesis using False flowResult_refl by blast
  qed
qed

lemma flow_terminates:
  "0 < newFrameArea s \<Longrightarrow> \<exists>s'. flowOverflow s = Some s'"
proof (induction "storyContent s - chainCapacity (textContainers s)" arbitrary: s rule: less_induct)
  case less
  show ?case
  proof (cases "overflows s")
    case False
    then show ?thesis by (subst flowOverflow.simps) simp
  next
    case True
    let ?t = "addPageAndFrame s"
    have "storyContent ?t - chainCapacity (textContainers ?t) < storyContent s - chainCapacity (textContainers s)"
      using True less.prems by (simp add: step_capacity step_rest overflows_def)
    moreover have "0 < newFrameArea ?t" using less.prems by (simp add: step_area)
    ultimately obtain s' where "flowOverflow ?t = Some s'" using less.hyps by blast
    then show ?thesis using True by (subst flowOverflow.simps) simp
  qed
qed

lemma flow_diverges_aux:
  assumes "flowOverflow s = Some s'"
  shows "\<not> (overflows s \<and> newFrameArea s = 0)"
proof (rule flowOverflow.raw_induct[where P = "\<lambda>s s'. \<not> (overflows s \<and> newFrameArea s = 0)", OF _ assms])
  fix f s s'
  assume ih: "\<And>x y. f x = Some y \<Longrightarrow> \<not> (overflows x \<and> newFrameArea x = 0)"
    and eq: "(if overflows s then f (addPageAndFrame s) else Some s) = Some s'"
  show "\<not> (overflows s \<and> newFrameArea s = 0)"
  proof
    assume a: "overflows s \<and> newFrameArea s = 0"
    then have "f (addPageAndFrame s) = Some s'" using eq by simp
    then have "\<not> (overflows (addPageAndFrame s) \<and> newFrameArea (addPageAndFrame s) = 0)" by (rule ih)
    moreover have "overflows (addPageAndFrame s)"
      using a by (simp add: overflows_def step_capacity step_rest)
    ultimately show False using a by (simp add: step_area)
  qed
qed

lemma flow_diverges:
  assumes "overflows s" and "newFrameArea s = 0"
  shows "flowOverflow s = None"
proof (cases "flowOverflow s")
  case None
  then show ?thesis .
next
  case (Some a)
  then show ?thesis using flow_diverges_aux[OF Some] assms by simp
qed

lemma placeInFirstFrame_wellFormed: "wellFormed (placeInFirstFrame pg ps nb nm n)"
  by (simp add: placeInFirstFrame_def wellFormed_def pagesAscend_def createFrameInsideMargins_def
      Let_def split: prod.splits list.splits)


lemma insideMargins_explicit:
  "insideMargins (addedPage s) =
     \<lparr>y1 = y1 (newPageBounds s) + m_top (newPageMargins s),
      x1 = x1 (newPageBounds s) + m_left (newPageMargins s),
      y2 = y2 (newPageBounds s) - m_bottom (newPageMargins s),
      x2 = x2 (newPageBounds s) - m_right (newPageMargins s)\<rparr>"
  by (simp add: insideMargins_def addedPage_def Let_def)

lemma iterate_rest:
  "storyContent ((addPageAndFrame ^^ k) s) = storyContent s \<and>
   newPageBounds ((addPageAndFrame ^^ k) s) = newPageBounds s \<and>
   newPageMargins ((addPageAndFrame ^^ k) s) = newPageMargins s"
  by (induction k) (simp_all add: step_rest)

lemma iterate_addedPage: "addedPage ((addPageAndFrame ^^ k) s) = addedPage s"
  by (simp add: addedPage_def iterate_rest)

lemma iterate_pages:
  assumes "pages s \<noteq> []"
  shows "pages ((addPageAndFrame ^^ k) s) = pages s @ replicate k (addedPage s)"
proof (induction k)
  case 0
  then show ?case by simp
next
  case (Suc k)
  have ne: "pages ((addPageAndFrame ^^ k) s) \<noteq> []" using Suc assms by simp
  show ?case
    using step_pages[OF ne] Suc
    by (simp add: iterate_addedPage replicate_append_same)
qed

lemma iterate_chain:
  assumes "pages s \<noteq> []"
  shows "textContainers ((addPageAndFrame ^^ k) s) =
     textContainers s @
     map (\<lambda>j. \<lparr>geometricBounds = insideMargins (addedPage s), parentPage = length (pages s) + j\<rparr>)
       [0..<k]"
proof (induction k)
  case 0
  then show ?case by simp
next
  case (Suc k)
  let ?t = "(addPageAndFrame ^^ k) s"
  have l: "Suc (length (pages ?t) - 1) = length (pages s) + k"
    using iterate_pages[OF assms, of k] assms by (cases "pages s") auto
  show ?case
    using step_chain[of ?t] Suc unfolding l
    by (simp add: iterate_addedPage)
qed

lemma flow_iterates_aux:
  assumes "flowOverflow s = Some s'"
  shows "\<exists>k. s' = (addPageAndFrame ^^ k) s \<and> (\<forall>j<k. overflows ((addPageAndFrame ^^ j) s)) \<and>
           \<not> overflows s'"
proof (rule flowOverflow.raw_induct[where P = "\<lambda>s s'. \<exists>k. s' = (addPageAndFrame ^^ k) s \<and>
    (\<forall>j<k. overflows ((addPageAndFrame ^^ j) s)) \<and> \<not> overflows s'", OF _ assms])
  fix f s s'
  assume ih: "\<And>x y. f x = Some y \<Longrightarrow> \<exists>k. y = (addPageAndFrame ^^ k) x \<and>
      (\<forall>j<k. overflows ((addPageAndFrame ^^ j) x)) \<and> \<not> overflows y"
    and eq: "(if overflows s then f (addPageAndFrame s) else Some s) = Some s'"
  show "\<exists>k. s' = (addPageAndFrame ^^ k) s \<and> (\<forall>j<k. overflows ((addPageAndFrame ^^ j) s)) \<and>
      \<not> overflows s'"
  proof (cases "overflows s")
    case True
    then have "f (addPageAndFrame s) = Some s'" using eq by simp
    then obtain k where k: "s' = (addPageAndFrame ^^ k) (addPageAndFrame s)"
        "\<forall>j<k. overflows ((addPageAndFrame ^^ j) (addPageAndFrame s))" "\<not> overflows s'"
      using ih by blast
    have 1: "s' = (addPageAndFrame ^^ Suc k) s" using k(1) by (simp add: funpow_swap1)
    have 2: "\<forall>j<Suc k. overflows ((addPageAndFrame ^^ j) s)"
    proof (intro allI impI)
      fix j assume j: "j < Suc k"
      show "overflows ((addPageAndFrame ^^ j) s)"
      proof (cases j)
        case 0
        then show ?thesis using True by simp
      next
        case (Suc i)
        then have "i < k" using j by simp
        then have "overflows ((addPageAndFrame ^^ i) (addPageAndFrame s))" using k(2) by blast
        then show ?thesis using Suc by (simp add: funpow_swap1)
      qed
    qed
    show ?thesis using 1 2 k(3) by blast
  next
    case False
    then have "s' = s" using eq by simp
    then have "s' = (addPageAndFrame ^^ 0) s \<and> (\<forall>j<0. overflows ((addPageAndFrame ^^ j) s)) \<and>
        \<not> overflows s'" using False by simp
    then show ?thesis by blast
  qed
qed

text \<open>
  Claim C1. From a well-formed state (in particular the state after the story was
  placed in its first container) the overflow loop does this: while the story
  overflows, one iteration appends a new page behind the last page, creates a
  container with the bounds inside that page's margins and makes it the chain's next
  container; the loop stops as soon as the story does not overflow. The bounds of the
  new container are the bounds of the new page, moved inwards by the page's margins:
  top and left are the page's top and left plus the top and the left margin, bottom
  and right are the page's bottom and right minus the bottom and the right margin.
  When the container of an added page has a positive usable area the loop does end.
  Whenever it ends, the story's overflow flag is false, every container of the chain
  lies on a page strictly behind its predecessor's page, and the pages and containers
  that were there at any iteration are still there, in place: no page is removed.
  The final state is the start state after some number \<open>k\<close> of iterations, at each of
  which the story overflowed: behind the pages and the containers of the start there
  are \<open>k\<close> new pages and \<open>k\<close> new containers, the \<open>j\<close>-th of them on the \<open>j\<close>-th new
  page, and every new container has the bounds of its own page moved inwards by that
  page's margins and is the one frame of that page.
\<close>

theorem pagination_flow:
  assumes "wellFormed s"
  shows "(flowOverflow s = (if overflows s then flowOverflow (addPageAndFrame s) else Some s)) \<and>
         pages (addPageAndFrame s) = pages s @ [addedPage s] \<and>
         textContainers (addPageAndFrame s) =
           textContainers s @
           [\<lparr>geometricBounds = insideMargins (addedPage s), parentPage = length (pages s)\<rparr>] \<and>
         (0 < newFrameArea s \<longrightarrow> (\<exists>s'. flowOverflow s = Some s')) \<and>
         (\<forall>s'. flowOverflow s = Some s' \<longrightarrow>
            \<not> overflows s' \<and> pagesAscend (textContainers s') \<and>
            prefix (pages s) (pages s') \<and> prefix (textContainers s) (textContainers s') \<and>
            flowResult s s') \<and>
         pages (addPageAndFrame s) =
           pages s @
           [\<lparr>pageBounds = newPageBounds s, marginPrefs = newPageMargins s,
             textFrames =
               [\<lparr>y1 = y1 (newPageBounds s) + m_top (newPageMargins s),
                 x1 = x1 (newPageBounds s) + m_left (newPageMargins s),
                 y2 = y2 (newPageBounds s) - m_bottom (newPageMargins s),
                 x2 = x2 (newPageBounds s) - m_right (newPageMargins s)\<rparr>]\<rparr>] \<and>
         textContainers (addPageAndFrame s) =
           textContainers s @
           [\<lparr>geometricBounds =
               \<lparr>y1 = y1 (newPageBounds s) + m_top (newPageMargins s),
                x1 = x1 (newPageBounds s) + m_left (newPageMargins s),
                y2 = y2 (newPageBounds s) - m_bottom (newPageMargins s),
                x2 = x2 (newPageBounds s) - m_right (newPageMargins s)\<rparr>,
             parentPage = length (pages s)\<rparr>] \<and>
         (\<forall>s'. flowOverflow s = Some s' \<longrightarrow>
            (\<exists>k. s' = (addPageAndFrame ^^ k) s \<and>
               (\<forall>j<k. overflows ((addPageAndFrame ^^ j) s)) \<and>
               pages s' = pages s @ replicate k (addedPage s) \<and>
               textContainers s' =
                 textContainers s @
                 map (\<lambda>j. \<lparr>geometricBounds = insideMargins (addedPage s),
                            parentPage = length (pages s) + j\<rparr>) [0..<k]) \<and>
            (\<forall>f \<in> set (drop (length (textContainers s)) (textContainers s')).
               length (pages s) \<le> parentPage f \<and> parentPage f < length (pages s') \<and>
               textFrames (pages s' ! parentPage f) = [geometricBounds f] \<and>
               geometricBounds f =
                 \<lparr>y1 = y1 (pageBounds (pages s' ! parentPage f)) +
                        m_top (marginPrefs (pages s' ! parentPage f)),
                  x1 = x1 (pageBounds (pages s' ! parentPage f)) +
                        m_left (marginPrefs (pages s' ! parentPage f)),
                  y2 = y2 (pageBounds (pages s' ! parentPage f)) -
                        m_bottom (marginPrefs (pages s' ! parentPage f)),
                  x2 = x2 (pageBounds (pages s' ! parentPage f)) -
                        m_right (marginPrefs (pages s' ! parentPage f))\<rparr>))"
proof -
  have ne: "pages s \<noteq> []" using assms by (simp add: wellFormed_def)
  then have l: "Suc (length (pages s) - 1) = length (pages s)" by (cases "pages s") auto
  have a: "flowOverflow s = (if overflows s then flowOverflow (addPageAndFrame s) else Some s)"
    by (rule flowOverflow.simps)
  have b: "pages (addPageAndFrame s) = pages s @ [addedPage s]" using step_pages[OF ne] .
  have c: "textContainers (addPageAndFrame s) =
           textContainers s @
           [\<lparr>geometricBounds = insideMargins (addedPage s), parentPage = length (pages s)\<rparr>]"
    using step_chain[of s] l by simp
  have d: "0 < newFrameArea s \<longrightarrow> (\<exists>s'. flowOverflow s = Some s')"
    using flow_terminates by blast
  have e: "\<forall>s'. flowOverflow s = Some s' \<longrightarrow>
            \<not> overflows s' \<and> pagesAscend (textContainers s') \<and>
            prefix (pages s) (pages s') \<and> prefix (textContainers s) (textContainers s') \<and>
            flowResult s s'"
  proof (intro allI impI)
    fix s' assume "flowOverflow s = Some s'"
    then have r: "flowResult s s'" using flow_partial_correct assms by blast
    then show "\<not> overflows s' \<and> pagesAscend (textContainers s') \<and>
            prefix (pages s) (pages s') \<and> prefix (textContainers s) (textContainers s') \<and>
            flowResult s s'"
      by (simp add: flowResult_def wellFormed_def)
  qed
  let ?E = "\<lparr>y1 = y1 (newPageBounds s) + m_top (newPageMargins s),
             x1 = x1 (newPageBounds s) + m_left (newPageMargins s),
             y2 = y2 (newPageBounds s) - m_bottom (newPageMargins s),
             x2 = x2 (newPageBounds s) - m_right (newPageMargins s)\<rparr>"
  have x: "insideMargins (addedPage s) = ?E" by (rule insideMargins_explicit)
  have y: "addedPage s =
      \<lparr>pageBounds = newPageBounds s, marginPrefs = newPageMargins s, textFrames = [?E]\<rparr>"
    by (simp add: addedPage_def insideMargins_def Let_def)
  have b': "pages (addPageAndFrame s) =
      pages s @ [\<lparr>pageBounds = newPageBounds s, marginPrefs = newPageMargins s,
        textFrames = [?E]\<rparr>]"
    using b y by simp
  have c': "textContainers (addPageAndFrame s) =
      textContainers s @ [\<lparr>geometricBounds = ?E, parentPage = length (pages s)\<rparr>]"
    using c x by simp
  have g: "\<forall>s'. flowOverflow s = Some s' \<longrightarrow>
            (\<exists>k. s' = (addPageAndFrame ^^ k) s \<and>
               (\<forall>j<k. overflows ((addPageAndFrame ^^ j) s)) \<and>
               pages s' = pages s @ replicate k (addedPage s) \<and>
               textContainers s' =
                 textContainers s @
                 map (\<lambda>j. \<lparr>geometricBounds = insideMargins (addedPage s),
                            parentPage = length (pages s) + j\<rparr>) [0..<k]) \<and>
            (\<forall>f \<in> set (drop (length (textContainers s)) (textContainers s')).
               length (pages s) \<le> parentPage f \<and> parentPage f < length (pages s') \<and>
               textFrames (pages s' ! parentPage f) = [geometricBounds f] \<and>
               geometricBounds f =
                 \<lparr>y1 = y1 (pageBounds (pages s' ! parentPage f)) +
                        m_top (marginPrefs (pages s' ! parentPage f)),
                  x1 = x1 (pageBounds (pages s' ! parentPage f)) +
                        m_left (marginPrefs (pages s' ! parentPage f)),
                  y2 = y2 (pageBounds (pages s' ! parentPage f)) -
                        m_bottom (marginPrefs (pages s' ! parentPage f)),
                  x2 = x2 (pageBounds (pages s' ! parentPage f)) -
                        m_right (marginPrefs (pages s' ! parentPage f))\<rparr>)"
  proof (intro allI impI)
    fix s' assume f: "flowOverflow s = Some s'"
    obtain k where k: "s' = (addPageAndFrame ^^ k) s"
        "\<forall>j<k. overflows ((addPageAndFrame ^^ j) s)"
      using flow_iterates_aux[OF f] by blast
    have pg: "pages s' = pages s @ replicate k (addedPage s)"
      unfolding k(1) by (rule iterate_pages[OF ne])
    have ch: "textContainers s' =
        textContainers s @
        map (\<lambda>j. \<lparr>geometricBounds = insideMargins (addedPage s),
                   parentPage = length (pages s) + j\<rparr>) [0..<k]"
      unfolding k(1) by (rule iterate_chain[OF ne])
    have new: "length (pages s) \<le> parentPage f \<and> parentPage f < length (pages s') \<and>
               textFrames (pages s' ! parentPage f) = [geometricBounds f] \<and>
               geometricBounds f =
                 \<lparr>y1 = y1 (pageBounds (pages s' ! parentPage f)) +
                        m_top (marginPrefs (pages s' ! parentPage f)),
                  x1 = x1 (pageBounds (pages s' ! parentPage f)) +
                        m_left (marginPrefs (pages s' ! parentPage f)),
                  y2 = y2 (pageBounds (pages s' ! parentPage f)) -
                        m_bottom (marginPrefs (pages s' ! parentPage f)),
                  x2 = x2 (pageBounds (pages s' ! parentPage f)) -
                        m_right (marginPrefs (pages s' ! parentPage f))\<rparr>"
      if m: "f \<in> set (drop (length (textContainers s)) (textContainers s'))" for f
    proof -
      obtain j where j: "j < k"
          "f = \<lparr>geometricBounds = insideMargins (addedPage s), parentPage = length (pages s) + j\<rparr>"
        using m unfolding ch by auto
      have p: "pages s' ! parentPage f = addedPage s"
        unfolding pg using j by (simp add: nth_append)
      have q: "parentPage f < length (pages s')" unfolding pg using j by simp
      have r: "geometricBounds f = ?E" using j(2) x by simp
      show ?thesis unfolding p using q r j(2) y by simp
    qed
    show "(\<exists>k. s' = (addPageAndFrame ^^ k) s \<and>
               (\<forall>j<k. overflows ((addPageAndFrame ^^ j) s)) \<and>
               pages s' = pages s @ replicate k (addedPage s) \<and>
               textContainers s' =
                 textContainers s @
                 map (\<lambda>j. \<lparr>geometricBounds = insideMargins (addedPage s),
                            parentPage = length (pages s) + j\<rparr>) [0..<k]) \<and>
            (\<forall>f \<in> set (drop (length (textContainers s)) (textContainers s')).
               length (pages s) \<le> parentPage f \<and> parentPage f < length (pages s') \<and>
               textFrames (pages s' ! parentPage f) = [geometricBounds f] \<and>
               geometricBounds f =
                 \<lparr>y1 = y1 (pageBounds (pages s' ! parentPage f)) +
                        m_top (marginPrefs (pages s' ! parentPage f)),
                  x1 = x1 (pageBounds (pages s' ! parentPage f)) +
                        m_left (marginPrefs (pages s' ! parentPage f)),
                  y2 = y2 (pageBounds (pages s' ! parentPage f)) -
                        m_bottom (marginPrefs (pages s' ! parentPage f)),
                  x2 = x2 (pageBounds (pages s' ! parentPage f)) -
                        m_right (marginPrefs (pages s' ! parentPage f))\<rparr>)"
      using k pg ch new by blast
  qed
  show ?thesis
    apply (intro conjI)
    subgoal by (rule a)
    subgoal by (rule b)
    subgoal by (rule c)
    subgoal by (rule d)
    subgoal by (rule e)
    subgoal by (rule b')
    subgoal by (rule c')
    subgoal by (rule g)
    done
qed

lemma placedStory_wellFormed: "wellFormed (placedStory m n)"
  by (simp add: placedStory_def placeInFirstFrame_wellFormed)

lemma spreadStory_wellFormed: "wellFormed (spreadStory n)"
  by (simp add: spreadStory_def placeInFirstFrame_wellFormed)

lemmas flowEval =
  placedStory_def placeInFirstFrame_def squarePage_def createFrameInsideMargins_def
  insideMargins_def addPageAndFrame_def addPageAfter_def overflows_def chainCapacity_def
  usableArea_def newFrameArea_def Let_def

lemmas spreadEval =
  spreadStory_def placeInFirstFrame_def spreadPage_def createFrameInsideMargins_def
  insideMargins_def addPageAndFrame_def addPageAfter_def overflows_def chainCapacity_def
  usableArea_def newFrameArea_def Let_def

lemma three_containers_flow:
  "flowOverflow (placedStory 10 19200) =
   Some (addPageAndFrame (addPageAndFrame (placedStory 10 19200)))"
proof -
  let ?s = "placedStory 10 19200"
  have a: "overflows ?s" by (simp add: flowEval)
  have b: "overflows (addPageAndFrame ?s)" by (simp add: flowEval)
  have c: "\<not> overflows (addPageAndFrame (addPageAndFrame ?s))" by (simp add: flowEval)
  have "flowOverflow ?s = flowOverflow (addPageAndFrame ?s)"
    using a by (subst flowOverflow.simps) simp
  also have "\<dots> = flowOverflow (addPageAndFrame (addPageAndFrame ?s))"
    using b by (subst flowOverflow.simps) simp
  also have "\<dots> = Some (addPageAndFrame (addPageAndFrame ?s))"
    using c by (subst flowOverflow.simps) simp
  finally show ?thesis .
qed

lemma spread_flow:
  "flowOverflow (spreadStory 5000) =
   Some (addPageAndFrame (addPageAndFrame (spreadStory 5000)))"
proof -
  let ?s = "spreadStory 5000"
  have a: "overflows ?s" by (simp add: spreadEval)
  have b: "overflows (addPageAndFrame ?s)" by (simp add: spreadEval)
  have c: "\<not> overflows (addPageAndFrame (addPageAndFrame ?s))" by (simp add: spreadEval)
  have "flowOverflow ?s = flowOverflow (addPageAndFrame ?s)"
    using a by (subst flowOverflow.simps) simp
  also have "\<dots> = flowOverflow (addPageAndFrame (addPageAndFrame ?s))"
    using b by (subst flowOverflow.simps) simp
  also have "\<dots> = Some (addPageAndFrame (addPageAndFrame ?s))"
    using c by (subst flowOverflow.simps) simp
  finally show ?thesis .
qed

text \<open>
  A story of three container-fulls on a one-page document: the loop ends after two
  iterations with three pages and the containers on the pages 0, 1 and 2. On pages
  with the bounds \<open>[5, 200, 105, 300]\<close> and the margins 10 (top), 20 (left), 30
  (bottom) and 40 (right), each of the two new pages carries one frame with the
  bounds \<open>[15, 220, 75, 260]\<close>, and these are the bounds of the two new containers.
\<close>

theorem pagination_flow_witness:
  "wellFormed (placedStory 10 19200) \<and> 0 < newFrameArea (placedStory 10 19200) \<and>
   flowOverflow (placedStory 10 19200) =
     Some (addPageAndFrame (addPageAndFrame (placedStory 10 19200))) \<and>
   \<not> overflows (addPageAndFrame (addPageAndFrame (placedStory 10 19200))) \<and>
   pagesAscend (textContainers (addPageAndFrame (addPageAndFrame (placedStory 10 19200)))) \<and>
   map parentPage (textContainers (addPageAndFrame (addPageAndFrame (placedStory 10 19200)))) =
     [0, 1, 2] \<and>
   length (pages (placedStory 10 19200)) = 1 \<and>
   length (pages (addPageAndFrame (addPageAndFrame (placedStory 10 19200)))) = 3 \<and>
   prefix (pages (placedStory 10 19200))
     (pages (addPageAndFrame (addPageAndFrame (placedStory 10 19200)))) \<and>
   wellFormed (spreadStory 5000) \<and> 0 < newFrameArea (spreadStory 5000) \<and>
   overflows (spreadStory 5000) \<and> overflows (addPageAndFrame (spreadStory 5000)) \<and>
   flowOverflow (spreadStory 5000) =
     Some (addPageAndFrame (addPageAndFrame (spreadStory 5000))) \<and>
   \<not> overflows (addPageAndFrame (addPageAndFrame (spreadStory 5000))) \<and>
   pages (addPageAndFrame (addPageAndFrame (spreadStory 5000))) =
     pages (spreadStory 5000) @
     [\<lparr>pageBounds = \<lparr>y1 = 5, x1 = 200, y2 = 105, x2 = 300\<rparr>,
       marginPrefs = \<lparr>m_top = 10, m_left = 20, m_bottom = 30, m_right = 40\<rparr>,
       textFrames = [\<lparr>y1 = 15, x1 = 220, y2 = 75, x2 = 260\<rparr>]\<rparr>,
      \<lparr>pageBounds = \<lparr>y1 = 5, x1 = 200, y2 = 105, x2 = 300\<rparr>,
       marginPrefs = \<lparr>m_top = 10, m_left = 20, m_bottom = 30, m_right = 40\<rparr>,
       textFrames = [\<lparr>y1 = 15, x1 = 220, y2 = 75, x2 = 260\<rparr>]\<rparr>] \<and>
   textContainers (addPageAndFrame (addPageAndFrame (spreadStory 5000))) =
     textContainers (spreadStory 5000) @
     [\<lparr>geometricBounds = \<lparr>y1 = 15, x1 = 220, y2 = 75, x2 = 260\<rparr>, parentPage = 1\<rparr>,
      \<lparr>geometricBounds = \<lparr>y1 = 15, x1 = 220, y2 = 75, x2 = 260\<rparr>, parentPage = 2\<rparr>] \<and>
   length (pages (spreadStory 5000)) = 1 \<and> length (textContainers (spreadStory 5000)) = 1"
proof -
  let ?s = "placedStory 10 19200"
  let ?r = "addPageAndFrame (addPageAndFrame ?s)"
  have w: "wellFormed ?s" by (rule placedStory_wellFormed)
  have f: "flowOverflow ?s = Some ?r" by (rule three_containers_flow)
  have "\<forall>s'. flowOverflow ?s = Some s' \<longrightarrow>
          \<not> overflows s' \<and> pagesAscend (textContainers s') \<and>
          prefix (pages ?s) (pages s') \<and> prefix (textContainers ?s) (textContainers s') \<and>
          flowResult ?s s'"
    using pagination_flow[OF w] by blast
  then have r: "\<not> overflows ?r \<and> pagesAscend (textContainers ?r) \<and> prefix (pages ?s) (pages ?r)"
    using f by blast
  have m: "map parentPage (textContainers ?r) = [0, 1, 2]" by (simp add: flowEval)
  have n: "length (pages ?s) = 1" "length (pages ?r) = 3" by (simp_all add: flowEval)
  have a: "0 < newFrameArea ?s" by (simp add: flowEval)
  let ?u = "spreadStory 5000"
  let ?v = "addPageAndFrame ?u"
  let ?P = "\<lparr>pageBounds = \<lparr>y1 = 5, x1 = 200, y2 = 105, x2 = 300\<rparr>,
       marginPrefs = \<lparr>m_top = 10, m_left = 20, m_bottom = 30, m_right = 40\<rparr>,
       textFrames = [\<lparr>y1 = 15, x1 = 220, y2 = 75, x2 = 260\<rparr>]\<rparr>"
  let ?F = "\<lambda>i. \<lparr>geometricBounds = \<lparr>y1 = 15, x1 = 220, y2 = 75, x2 = 260\<rparr>, parentPage = i\<rparr>"
  have w2: "wellFormed ?u" by (rule spreadStory_wellFormed)
  have w3: "wellFormed ?v" using w2 by (rule step_wellFormed)
  have f2: "flowOverflow ?u = Some (addPageAndFrame ?v)" by (rule spread_flow)
  have a2: "0 < newFrameArea ?u" "overflows ?u" "overflows ?v" by (simp_all add: spreadEval)
  have g: "newPageBounds ?u = \<lparr>y1 = 5, x1 = 200, y2 = 105, x2 = 300\<rparr>"
      "newPageMargins ?u = \<lparr>m_top = 10, m_left = 20, m_bottom = 30, m_right = 40\<rparr>"
      "length (pages ?u) = 1" "length (textContainers ?u) = 1"
    by (simp_all add: spreadStory_def placeInFirstFrame_def spreadPage_def
        createFrameInsideMargins_def Let_def)
  have g': "newPageBounds ?v = \<lparr>y1 = 5, x1 = 200, y2 = 105, x2 = 300\<rparr>"
      "newPageMargins ?v = \<lparr>m_top = 10, m_left = 20, m_bottom = 30, m_right = 40\<rparr>"
    using g(1,2) by (simp_all add: step_rest)
  note t1 = pagination_flow[OF w2]
  note t2 = pagination_flow[OF w3]
  have p1: "pages ?v = pages ?u @ [?P]"
    using t1[THEN conjunct2, THEN conjunct2, THEN conjunct2, THEN conjunct2, THEN conjunct2,
        THEN conjunct1] unfolding g by simp
  have c1: "textContainers ?v = textContainers ?u @ [?F 1]"
    using t1[THEN conjunct2, THEN conjunct2, THEN conjunct2, THEN conjunct2, THEN conjunct2,
        THEN conjunct2, THEN conjunct1] unfolding g by simp
  have l1: "length (pages ?v) = 2" using p1 g(3) by simp
  have p2: "pages (addPageAndFrame ?v) = pages ?v @ [?P]"
    using t2[THEN conjunct2, THEN conjunct2, THEN conjunct2, THEN conjunct2, THEN conjunct2,
        THEN conjunct1] unfolding g' by simp
  have c2: "textContainers (addPageAndFrame ?v) = textContainers ?v @ [?F 2]"
    using t2[THEN conjunct2, THEN conjunct2, THEN conjunct2, THEN conjunct2, THEN conjunct2,
        THEN conjunct2, THEN conjunct1] unfolding g' l1 by simp
  have p: "pages (addPageAndFrame ?v) = pages ?u @ [?P, ?P]" using p1 p2 by simp
  have c: "textContainers (addPageAndFrame ?v) = textContainers ?u @ [?F 1, ?F 2]"
    using c1 c2 by simp
  have "\<forall>s'. flowOverflow ?u = Some s' \<longrightarrow>
          \<not> overflows s' \<and> pagesAscend (textContainers s') \<and>
          prefix (pages ?u) (pages s') \<and> prefix (textContainers ?u) (textContainers s') \<and>
          flowResult ?u s'"
    using t1 by blast
  then have r2: "\<not> overflows (addPageAndFrame ?v)" using f2 by blast
  show ?thesis
    apply (intro conjI)
    subgoal by (rule w)
    subgoal by (rule a)
    subgoal by (rule f)
    subgoal using r by blast
    subgoal using r by blast
    subgoal by (rule m)
    subgoal by (rule n(1))
    subgoal by (rule n(2))
    subgoal using r by blast
    subgoal by (rule w2)
    subgoal by (rule a2(1))
    subgoal by (rule a2(2))
    subgoal by (rule a2(3))
    subgoal by (rule f2)
    subgoal by (rule r2)
    subgoal by (rule p)
    subgoal by (rule c)
    subgoal by (rule g(3))
    subgoal by (rule g(4))
    done
qed

text \<open>
  Claim C9, as stated, fails. In a document whose new pages have margins of half the
  page size the added containers have no usable area; a story that overflows its
  first container is then never displayed in full, and the loop, which has no cap on
  its iterations or on the pages, never ends: it neither returns nor fails.
\<close>

theorem flow_never_ends_counterexample:
  "overflows (placedStory 50 10000) \<and> newFrameArea (placedStory 50 10000) = 0 \<and>
   flowOverflow (placedStory 50 10000) = None"
proof -
  have a: "overflows (placedStory 50 10000)" by (simp add: flowEval)
  have b: "newFrameArea (placedStory 50 10000) = 0" by (simp add: flowEval)
  show ?thesis using a b flow_diverges[OF a b] by blast
qed

text \<open>
  Claim C9, amended. The loop ends exactly when the story does not overflow at the
  start or the container of an added page has a positive usable area. The code has no
  iteration or page cap: when the story overflows and the added containers have no
  usable area, the loop runs forever.
\<close>

theorem flow_terminates_iff:
  "(\<exists>s'. flowOverflow s = Some s') \<longleftrightarrow> (overflows s \<longrightarrow> 0 < newFrameArea s)"
proof
  assume "\<exists>s'. flowOverflow s = Some s'"
  then show "overflows s \<longrightarrow> 0 < newFrameArea s" using flow_diverges_aux by fastforce
next
  assume a: "overflows s \<longrightarrow> 0 < newFrameArea s"
  show "\<exists>s'. flowOverflow s = Some s'"
  proof (cases "overflows s")
    case True
    then show ?thesis using a flow_terminates by blast
  next
    case False
    then show ?thesis by (subst flowOverflow.simps) simp
  qed
qed

text \<open>
  Both sides of the amended claim: the story of three container-fulls, and the story
  behind pages without usable area.
\<close>

theorem flow_terminates_iff_witness:
  "overflows (placedStory 10 19200) \<and> 0 < newFrameArea (placedStory 10 19200) \<and>
   (\<exists>s'. flowOverflow (placedStory 10 19200) = Some s') \<and>
   overflows (placedStory 50 10000) \<and> newFrameArea (placedStory 50 10000) = 0 \<and>
   \<not> (\<exists>s'. flowOverflow (placedStory 50 10000) = Some s')"
proof -
  have a: "overflows (placedStory 10 19200)" "0 < newFrameArea (placedStory 10 19200)"
    by (simp_all add: flowEval)
  have b: "overflows (placedStory 50 10000)" "newFrameArea (placedStory 50 10000) = 0"
    by (simp_all add: flowEval)
  have c: "\<exists>s'. flowOverflow (placedStory 10 19200) = Some s'"
    using flow_terminates_iff[of "placedStory 10 19200"] a by blast
  have d: "\<not> (\<exists>s'. flowOverflow (placedStory 50 10000) = Some s')"
    using flow_terminates_iff[of "placedStory 50 10000"] b by simp
  show ?thesis using a b c d by blast
qed

section \<open>Properties of Pass A\<close>

lemma headingPattern_simps:
  "headingPattern 1 = str ''Heading 1''" "headingPattern 2 = str ''Heading 2''"
  "headingPattern 3 = str ''Heading 3''" "headingPattern 4 = str ''Heading 4''"
  "headingPattern 5 = str ''Heading 5''" "headingPattern 6 = str ''Heading 6''"
  "headingPattern (Suc 0) = str ''Heading 1''"
  by (simp_all add: headingPattern_def str_def)

lemma level_cases:
  assumes "1 \<le> k" "k \<le> (6::nat)"
  shows "k = 1 \<or> k = 2 \<or> k = 3 \<or> k = 4 \<or> k = 5 \<or> k = 6"
  using assms by arith

text \<open>
  Claim C3, as stated, fails. A paragraph in the imported style "Report Heading 3" matches
  the Heading 3 pattern; in a document that registers "Body" but no style "Heading 3"
  both variants of the pass reassign it to the body style instead of leaving its
  style untouched.
\<close>

theorem heading_rule_counterexample:
  "testI (str ''Heading 3'') (srcNameOf (plainPara (str ''Report Heading 3'') (str ''Scope''))) \<and>
   h3 (gatherStyles [str ''Body'', str ''Report Heading 3'']) = None \<and>
   appliedParagraphStyle
     (mapIncomingStylesStep (gatherStyles [str ''Body'', str ''Report Heading 3''])
        (plainPara (str ''Report Heading 3'') (str ''Scope''))) =
     Some (ParagraphStyle (str ''Body'')) \<and>
   appliedParagraphStyle
     (applyStyleMappingStep (gatherStyles [str ''Body'', str ''Report Heading 3''])
        (plainPara (str ''Report Heading 3'') (str ''Scope''))) =
     Some (ParagraphStyle (str ''Body'')) \<and>
   appliedParagraphStyle (plainPara (str ''Report Heading 3'') (str ''Scope'')) =
     Some (ParagraphStyle (str ''Report Heading 3''))"
  by (simp add: mapIncomingStylesStep_def applyStyleMappingStep_def gatherStyles_def getStyle_def
      srcNameOf_def plainPara_def str_def canonicalize_def)

text \<open>
  Claim C3, amended. In Pass A, for a paragraph whose source style name matches the
  Heading \<open>k\<close> pattern, \<open>k\<close> from 1 to 6, and no other pattern of the chain: when the
  target style of that level is registered, the paragraph is reassigned to it; when
  it is not registered, the chain falls through to its last rule with no error, so
  the paragraph is reassigned to the body style when the body style is registered,
  and its style is left untouched only when the body style is unregistered as well.
  The variant with three heading levels does the same for the levels 1 to 3. The
  contents are not changed, and each pass treats every paragraph of the story so.
\<close>

theorem heading_rule_falls_through_to_body:
  assumes "matchesOnlyHeading k (srcNameOf p)"
  shows "appliedParagraphStyle (mapIncomingStylesStep st p) =
           (if headingStyle st k \<noteq> None then headingStyle st k
            else if body st \<noteq> None then body st
            else appliedParagraphStyle p) \<and>
         (k \<le> 3 \<longrightarrow>
            appliedParagraphStyle (applyStyleMappingStep st p) =
              (if headingStyle st k \<noteq> None then headingStyle st k
               else if body st \<noteq> None then body st
               else appliedParagraphStyle p)) \<and>
         contents (mapIncomingStylesStep st p) = contents p \<and>
         contents (applyStyleMappingStep st p) = contents p \<and>
         mapIncomingStyles st ps = map (mapIncomingStylesStep st) ps \<and>
         applyStyleMapping st ps = map (applyStyleMappingStep st) ps"
proof -
  have k: "k = 1 \<or> k = 2 \<or> k = 3 \<or> k = 4 \<or> k = 5 \<or> k = 6"
    using assms level_cases by (simp add: matchesOnlyHeading_def)
  have c: "contents (mapIncomingStylesStep st p) = contents p"
       "contents (applyStyleMappingStep st p) = contents p"
    by (simp_all add: mapIncomingStylesStep_def applyStyleMappingStep_def Let_def)
  have a: "appliedParagraphStyle (mapIncomingStylesStep st p) =
           (if headingStyle st k \<noteq> None then headingStyle st k
            else if body st \<noteq> None then body st
            else appliedParagraphStyle p)"
    using assms k unfolding matchesOnlyHeading_def
    by (elim disjE) (simp_all add: headingPattern_simps mapIncomingStylesStep_def headingStyle_def Let_def)
  have b: "k \<le> 3 \<longrightarrow>
            appliedParagraphStyle (applyStyleMappingStep st p) =
              (if headingStyle st k \<noteq> None then headingStyle st k
               else if body st \<noteq> None then body st
               else appliedParagraphStyle p)"
    using assms k unfolding matchesOnlyHeading_def
    by (elim disjE) (simp_all add: headingPattern_simps applyStyleMappingStep_def headingStyle_def Let_def)
  have d: "mapIncomingStyles st ps = map (mapIncomingStylesStep st) ps"
       "applyStyleMapping st ps = map (applyStyleMappingStep st) ps"
    by (induction ps) simp_all
  show ?thesis using a b c d by blast
qed


lemma heading3_example:
  "matchesOnlyHeading 3 (srcNameOf (plainPara (str ''Report Heading 3'') (str ''Scope'')))"
  "headingStyle (gatherStyles [str ''Body'', str ''Heading 3'', str ''Report Heading 3'']) 3 =
     Some (ParagraphStyle (str ''Heading 3''))"
  "headingStyle (gatherStyles [str ''Body'', str ''Report Heading 3'']) 3 = None"
  "body (gatherStyles [str ''Body'', str ''Report Heading 3'']) = Some (ParagraphStyle (str ''Body''))"
  "headingStyle (gatherStyles [str ''Report Heading 3'']) 3 = None"
  "body (gatherStyles [str ''Report Heading 3'']) = None"
  by code_simp+

text \<open>
  A paragraph in the style "Report Heading 3" in three documents: with the target style
  registered, with only the body style registered, and with neither.
\<close>

theorem heading_rule_falls_through_to_body_witness:
  "matchesOnlyHeading 3 (srcNameOf (plainPara (str ''Report Heading 3'') (str ''Scope''))) \<and>
   appliedParagraphStyle
     (mapIncomingStylesStep (gatherStyles [str ''Body'', str ''Heading 3'', str ''Report Heading 3''])
        (plainPara (str ''Report Heading 3'') (str ''Scope''))) =
     Some (ParagraphStyle (str ''Heading 3'')) \<and>
   appliedParagraphStyle
     (mapIncomingStylesStep (gatherStyles [str ''Body'', str ''Report Heading 3''])
        (plainPara (str ''Report Heading 3'') (str ''Scope''))) =
     Some (ParagraphStyle (str ''Body'')) \<and>
   appliedParagraphStyle
     (mapIncomingStylesStep (gatherStyles [str ''Report Heading 3''])
        (plainPara (str ''Report Heading 3'') (str ''Scope''))) =
     Some (ParagraphStyle (str ''Report Heading 3'')) \<and>
   appliedParagraphStyle
     (applyStyleMappingStep (gatherStyles [str ''Report Heading 3''])
        (plainPara (str ''Report Heading 3'') (str ''Scope''))) =
     Some (ParagraphStyle (str ''Report Heading 3''))"
proof -
  let ?p = "plainPara (str ''Report Heading 3'') (str ''Scope'')"
  note m = heading3_example(1)
  note w1 = heading_rule_falls_through_to_body[OF m, of "gatherStyles [str ''Body'', str ''Heading 3'', str ''Report Heading 3'']"]
  note w2 = heading_rule_falls_through_to_body[OF m, of "gatherStyles [str ''Body'', str ''Report Heading 3'']"]
  note w3 = heading_rule_falls_through_to_body[OF m, of "gatherStyles [str ''Report Heading 3'']"]
  have o: "appliedParagraphStyle ?p = Some (ParagraphStyle (str ''Report Heading 3''))"
    by (simp add: plainPara_def)
  have 1: "appliedParagraphStyle
     (mapIncomingStylesStep (gatherStyles [str ''Body'', str ''Heading 3'', str ''Report Heading 3'']) ?p) =
     Some (ParagraphStyle (str ''Heading 3''))"
    using w1[THEN conjunct1] heading3_example(2) by simp
  have 2: "appliedParagraphStyle (mapIncomingStylesStep (gatherStyles [str ''Body'', str ''Report Heading 3'']) ?p) =
     Some (ParagraphStyle (str ''Body''))"
    using w2[THEN conjunct1] heading3_example(3,4) by simp
  have 3: "appliedParagraphStyle (mapIncomingStylesStep (gatherStyles [str ''Report Heading 3'']) ?p) =
     Some (ParagraphStyle (str ''Report Heading 3''))"
    using w3[THEN conjunct1] heading3_example(5,6) o by simp
  have 4: "appliedParagraphStyle (applyStyleMappingStep (gatherStyles [str ''Report Heading 3'']) ?p) =
     Some (ParagraphStyle (str ''Report Heading 3''))"
    using w3[THEN conjunct2, THEN conjunct1] heading3_example(5,6) o by simp
  show ?thesis using m 1 2 3 4 by blast
qed

section \<open>Properties of Pass B\<close>

lemma isSpace_TAB: "isSpace TAB"
  by (simp add: isSpace_def TAB_def)

lemma optTab_after_space: "optTab (dropWhile isSpace s) = dropWhile isSpace s"
proof (cases "dropWhile isSpace s")
  case Nil
  show ?thesis unfolding optTab_def Nil by simp
next
  case (Cons c cs)
  then have "\<not> isSpace c" using hd_dropWhile[of isSpace s] by auto
  then have "c \<noteq> TAB" using isSpace_TAB by auto
  then show ?thesis using Cons by (simp add: optTab_def)
qed

lemma removeLeadingTabs_after_space: "removeLeadingTabs (dropWhile isSpace s) = dropWhile isSpace s"
proof (cases "dropWhile isSpace s")
  case Nil
  show ?thesis unfolding removeLeadingTabs_def Nil by simp
next
  case (Cons c cs)
  then have "\<not> isSpace c" using hd_dropWhile[of isSpace s] by auto
  then have "c \<noteq> TAB" using isSpace_TAB by auto
  then show ?thesis using Cons by (simp add: removeLeadingTabs_def)
qed

lemma subBulletGlyphRE_Cons:
  "isSubGlyph c \<Longrightarrow> subBulletGlyphRE (c # cs) = Some (dropWhile isSpace cs)"
  by (simp add: subBulletGlyphRE_def optTab_after_space)

lemma glyphRE_Cons:
  "isGlyph c \<Longrightarrow> glyphRE (c # cs) = Some (trimStart (dropWhile isGlyph (c # cs)))"
  by (simp add: glyphRE_def optTab_after_space trimStart_def)

lemma glyph_not_space: "isGlyph c \<Longrightarrow> \<not> isSpace c"
  by (auto simp: isGlyph_def isSpace_def)

lemma overmatch_glyphs: "c = 0x6F \<or> c = 0x2D \<or> c = 0x2013 \<Longrightarrow> isGlyph c"
  by (auto simp: isGlyph_def)

lemma bullet_item_one:
  "primaryBulletRE ([0x2022] @ str '' Item one'') = Some (str ''Item one'')"
  "subBulletGlyphRE ([0x2022] @ str '' Item one'') = None"
  by (simp_all add: primaryBulletRE_def subBulletGlyphRE_def isPrimaryGlyph_def isSubGlyph_def
      optTab_def str_def isSpace_def TAB_def)

text \<open>
  Claim C4, as stated, fails. In the first \<open>normalizeBulletsAndLists\<close> all glyphs
  are one class: a body paragraph that leads with the white circle receives the
  primary bullet style although the sub-bullet style is registered. In
  \<open>normalizeBullets\<close>, which does test the sub-bullet glyphs first, a paragraph
  that leads with the white bullet U+25E6 receives the primary bullet style when
  the sub-bullet style is not registered.
\<close>

theorem sub_bullet_counterexample:
  "subBullet (gatherStyles [str ''Body'', str ''Bullets'', str ''Sub-Bullets'']) =
     Some (ParagraphStyle (str ''Sub-Bullets'')) \<and>
   isSubGlyph 0x25CB \<and> \<not> skipsHeadingOrTable (plainPara (str ''Body'') ([0x25CB] @ str '' Sub item'')) \<and>
   appliedParagraphStyle
     (normalizeBulletsAndListsStep (gatherStyles [str ''Body'', str ''Bullets'', str ''Sub-Bullets''])
        (plainPara (str ''Body'') ([0x25CB] @ str '' Sub item''))) =
     Some (ParagraphStyle (str ''Bullets'')) \<and>
   isSubGlyph 0x25E6 \<and>
   appliedParagraphStyle
     (normalizeBulletsStep (gatherStyles [str ''Body'', str ''Bullets''])
        (plainPara (str ''Body'') ([0x25E6] @ str '' Sub item''))) =
     Some (ParagraphStyle (str ''Bullets''))"
  by (simp add: normalizeBulletsAndListsStep_def normalizeBulletsStep_def gatherStyles_def
      getStyle_def plainPara_def skipsHeadingOrTable_def srcNameOf_def reTest_def glyphRE_def
      subBulletGlyphRE_def primaryBulletRE_def isGlyph_def isSubGlyph_def isPrimaryGlyph_def
      trimEnd_def isSpace_def str_def canonicalize_def Let_def)

text \<open>
  Claim C4, amended. In \<open>normalizeBullets\<close> the sub-bullet glyphs are tested before
  the primary-bullet glyphs, so when the sub-bullet style is registered a paragraph
  that leads with a sub-bullet glyph (also with U+25E6, which both classes hold)
  loses the glyph and the white space behind it and receives the sub-bullet style
  and the list type of a bullet list; a paragraph with the contents "(U+2022) Item
  one" and a registered bullet style ends with the contents "Item one", the bullet
  style and the list type of a bullet list. The first \<open>normalizeBulletsAndLists\<close>
  has one class of glyphs and assigns \<open>styles.bullet\<close> to a paragraph that leads
  with a sub-bullet glyph. \<open>normalizeBullets\<close> treats every paragraph of the story
  so.
\<close>

theorem sub_bullets_tested_first:
  "(subBullet st = Some sb \<and> contents pp = c # cs \<and> isSubGlyph c \<longrightarrow>
      normalizeBulletsStep st pp =
        pp\<lparr>contents := dropWhile isSpace cs, appliedParagraphStyle := Some sb,
           bulletsAndNumberingListType := BULLET_LIST, overrides := False\<rparr>) \<and>
   (bullet st = Some b \<and> contents pp = [0x2022] @ str '' Item one'' \<longrightarrow>
      normalizeBulletsStep st pp =
        pp\<lparr>contents := str ''Item one'', appliedParagraphStyle := Some b,
           bulletsAndNumberingListType := BULLET_LIST, overrides := False\<rparr>) \<and>
   (contents p = c # cs \<and> isSubGlyph c \<and> \<not> skipsHeadingOrTable p \<longrightarrow>
      appliedParagraphStyle (normalizeBulletsAndListsStep st p) = bullet st) \<and>
   normalizeBullets st pps = map (normalizeBulletsStep st) pps"
proof -
  have a: "subBullet st = Some sb \<and> contents pp = c # cs \<and> isSubGlyph c \<longrightarrow>
      normalizeBulletsStep st pp =
        pp\<lparr>contents := dropWhile isSpace cs, appliedParagraphStyle := Some sb,
           bulletsAndNumberingListType := BULLET_LIST, overrides := False\<rparr>"
    by (simp add: normalizeBulletsStep_def reTest_def reRemove_def subBulletGlyphRE_Cons)
  have b: "bullet st = Some b \<and> contents pp = [0x2022] @ str '' Item one'' \<longrightarrow>
      normalizeBulletsStep st pp =
        pp\<lparr>contents := str ''Item one'', appliedParagraphStyle := Some b,
           bulletsAndNumberingListType := BULLET_LIST, overrides := False\<rparr>"
    using bullet_item_one by (simp add: normalizeBulletsStep_def reTest_def reRemove_def)
  have c: "contents p = c # cs \<and> isSubGlyph c \<and> \<not> skipsHeadingOrTable p \<longrightarrow>
      appliedParagraphStyle (normalizeBulletsAndListsStep st p) = bullet st"
  proof (intro impI, elim conjE)
    assume h: "contents p = c # cs" "isSubGlyph c" "\<not> skipsHeadingOrTable p"
    have g: "isGlyph c" using h(2) by (auto simp: isSubGlyph_def isGlyph_def)
    then obtain ys where "trimEnd (c # cs) = c # ys"
      using trimEnd_Cons_keep glyph_not_space by blast
    then have "reTest glyphRE (trimEnd (contents p))"
      using h(1) g by (simp add: reTest_def glyphRE_Cons)
    then show "appliedParagraphStyle (normalizeBulletsAndListsStep st p) = bullet st"
      using h(3) by (simp add: normalizeBulletsAndListsStep_def Let_def)
  qed
  have d: "normalizeBullets st pps = map (normalizeBulletsStep st) pps"
    by (induction pps) simp_all
  show ?thesis using a b c d by blast
qed

text \<open>
  With both styles registered: a paragraph that leads with U+25E6 and a tab, in both
  passes, and the paragraph "(U+2022) Item one".
\<close>

theorem sub_bullets_tested_first_witness:
  "normalizeBulletsStep (gatherStyles [str ''Bullets'', str ''Sub-Bullets''])
     (plainPara (str ''Body'') ([0x25E6, TAB] @ str ''Sub item'')) =
   \<lparr>contents = str ''Sub item'',
    appliedParagraphStyle = Some (ParagraphStyle (str ''Sub-Bullets'')),
    leftIndent = 0, bulletsAndNumberingListType = BULLET_LIST, overrides = False\<rparr> \<and>
   normalizeBulletsStep (gatherStyles [str ''Bullets'', str ''Sub-Bullets''])
     (plainPara (str ''Body'') ([0x2022] @ str '' Item one'')) =
   \<lparr>contents = str ''Item one'',
    appliedParagraphStyle = Some (ParagraphStyle (str ''Bullets'')),
    leftIndent = 0, bulletsAndNumberingListType = BULLET_LIST, overrides = False\<rparr> \<and>
   appliedParagraphStyle
     (normalizeBulletsAndListsStep (gatherStyles [str ''Bullets'', str ''Sub-Bullets''])
        (plainPara (str ''Body'') ([0x25E6, TAB] @ str ''Sub item''))) =
   Some (ParagraphStyle (str ''Bullets''))"
proof -
  let ?st = "gatherStyles [str ''Bullets'', str ''Sub-Bullets'']"
  have s: "subBullet ?st = Some (ParagraphStyle (str ''Sub-Bullets''))"
      "bullet ?st = Some (ParagraphStyle (str ''Bullets''))"
    by (simp_all add: gatherStyles_def getStyle_def str_def)
  have g: "isSubGlyph 0x25E6" by (simp add: isSubGlyph_def)
  have d: "dropWhile isSpace (TAB # str ''Sub item'') = str ''Sub item''"
    by (simp add: isSpace_def TAB_def str_def)
  note w = sub_bullets_tested_first[of ?st "ParagraphStyle (str ''Sub-Bullets'')"
      "plainPara (str ''Body'') ([0x25E6, TAB] @ str ''Sub item'')" "0x25E6" "TAB # str ''Sub item''"]
  note v = sub_bullets_tested_first[of ?st _ "plainPara (str ''Body'') ([0x2022] @ str '' Item one'')" _ _
      "ParagraphStyle (str ''Bullets'')"]
  have 1: "normalizeBulletsStep ?st (plainPara (str ''Body'') ([0x25E6, TAB] @ str ''Sub item'')) =
     \<lparr>contents = str ''Sub item'',
      appliedParagraphStyle = Some (ParagraphStyle (str ''Sub-Bullets'')),
      leftIndent = 0, bulletsAndNumberingListType = BULLET_LIST, overrides = False\<rparr>"
    using w[THEN conjunct1] s(1) g d by (simp add: plainPara_def)
  have 2: "normalizeBulletsStep ?st (plainPara (str ''Body'') ([0x2022] @ str '' Item one'')) =
     \<lparr>contents = str ''Item one'',
      appliedParagraphStyle = Some (ParagraphStyle (str ''Bullets'')),
      leftIndent = 0, bulletsAndNumberingListType = BULLET_LIST, overrides = False\<rparr>"
    using v[THEN conjunct2, THEN conjunct1] s(2) by (simp add: plainPara_def)
  have n: "\<not> skipsHeadingOrTable (plainPara (str ''Body'') ([0x25E6, TAB] @ str ''Sub item''))"
    by (simp add: skipsHeadingOrTable_def srcNameOf_def plainPara_def str_def canonicalize_def)
  have 3: "appliedParagraphStyle (normalizeBulletsAndListsStep ?st
      (plainPara (str ''Body'') ([0x25E6, TAB] @ str ''Sub item''))) =
      Some (ParagraphStyle (str ''Bullets''))"
    using w[THEN conjunct2, THEN conjunct2, THEN conjunct1] g n s(2) by (simp add: plainPara_def)
  show ?thesis using 1 2 3 by blast
qed

lemma tabAwareStep_fst:
  "fst (tabAwareStep st prev p) \<longleftrightarrow> \<not> isHeadingOrTable p \<and> shouldBeBullet prev p"
  by (simp add: tabAwareStep_def Let_def)

lemma tabAwareLoop_nth:
  "k < length ps \<Longrightarrow>
   tabAwareLoop st prev ps ! k = snd (tabAwareStep st (prevWasBulletAt st prev ps k) (ps ! k))"
proof (induction ps arbitrary: prev k)
  case Nil
  then show ?case by simp
next
  case (Cons p ps)
  then show ?case by (cases k) (auto simp: split_def Let_def)
qed

lemma tabAwareLoop_length: "length (tabAwareLoop st prev ps) = length ps"
  by (induction ps arbitrary: prev) (auto simp: split_def Let_def)

lemma prevWasBulletAt_Suc:
  "k < length ps \<Longrightarrow>
   prevWasBulletAt st prev ps (Suc k) =
   fst (tabAwareStep st (prevWasBulletAt st prev ps k) (ps ! k))"
proof (induction ps arbitrary: prev k)
  case Nil
  then show ?case by simp
next
  case (Cons p ps)
  then show ?case by (cases k) auto
qed

text \<open>
  Claim C8. At every iteration \<open>k\<close> of the tab-aware classification loop: the
  paragraph is treated by one step with the current value of the rolling flag; the
  flag is true exactly when there is an immediately preceding paragraph that was not
  skipped and was classified as a bullet; after the iteration the flag is true
  exactly when this paragraph was not skipped and was classified as a bullet, so at
  a heading or table paragraph it is reset to false (and the paragraph is left as it
  is); and a paragraph that is neither a list item of the host nor led by a glyph is
  classified as a bullet only when its text begins with a tab and its style name
  looks like a list style or the flag is true.
\<close>

theorem prevWasBullet_invariant:
  assumes "k < length ps"
  shows "normalizeBulletsAndListsTab st ps ! k =
           snd (tabAwareStep st (prevWasBulletAt st False ps k) (ps ! k)) \<and>
         (prevWasBulletAt st False ps k \<longleftrightarrow>
            0 < k \<and> \<not> isHeadingOrTable (ps ! (k - 1)) \<and>
            shouldBeBullet (prevWasBulletAt st False ps (k - 1)) (ps ! (k - 1))) \<and>
         (prevWasBulletAt st False ps (Suc k) \<longleftrightarrow>
            \<not> isHeadingOrTable (ps ! k) \<and> shouldBeBullet (prevWasBulletAt st False ps k) (ps ! k)) \<and>
         (isHeadingOrTable (ps ! k) \<longrightarrow>
            \<not> prevWasBulletAt st False ps (Suc k) \<and> normalizeBulletsAndListsTab st ps ! k = ps ! k) \<and>
         (\<not> isHeadingOrTable (ps ! k) \<and> \<not> isTrueList (ps ! k) \<and> \<not> hasGlyph (ps ! k) \<longrightarrow>
            (fst (tabAwareStep st (prevWasBulletAt st False ps k) (ps ! k)) \<longleftrightarrow>
             startsWithTab (ps ! k) \<and>
             (looksListyStyle (ps ! k) \<or> prevWasBulletAt st False ps k)))"
proof -
  let ?prev = "prevWasBulletAt st False ps k"
  have a: "normalizeBulletsAndListsTab st ps ! k = snd (tabAwareStep st ?prev (ps ! k))"
    using tabAwareLoop_nth[OF assms] by (simp add: normalizeBulletsAndListsTab_def)
  have b: "?prev \<longleftrightarrow> 0 < k \<and> \<not> isHeadingOrTable (ps ! (k - 1)) \<and>
            shouldBeBullet (prevWasBulletAt st False ps (k - 1)) (ps ! (k - 1))"
  proof (cases k)
    case 0
    then show ?thesis by simp
  next
    case (Suc j)
    then have "j < length ps" using assms by simp
    then show ?thesis using Suc prevWasBulletAt_Suc[of j ps st False] by (simp add: tabAwareStep_fst)
  qed
  have c: "prevWasBulletAt st False ps (Suc k) \<longleftrightarrow>
            \<not> isHeadingOrTable (ps ! k) \<and> shouldBeBullet ?prev (ps ! k)"
    using prevWasBulletAt_Suc[OF assms] by (simp add: tabAwareStep_fst)
  have d: "isHeadingOrTable (ps ! k) \<longrightarrow>
            \<not> prevWasBulletAt st False ps (Suc k) \<and> normalizeBulletsAndListsTab st ps ! k = ps ! k"
    using a c by (simp add: tabAwareStep_def Let_def)
  have e: "\<not> isHeadingOrTable (ps ! k) \<and> \<not> isTrueList (ps ! k) \<and> \<not> hasGlyph (ps ! k) \<longrightarrow>
            (fst (tabAwareStep st ?prev (ps ! k)) \<longleftrightarrow>
             startsWithTab (ps ! k) \<and> (looksListyStyle (ps ! k) \<or> ?prev))"
    by (simp add: tabAwareStep_fst shouldBeBullet_def)
  show ?thesis using a b c d e by blast
qed

lemma example_flags:
  "map (prevWasBulletAt (gatherStyles [str ''Bullets'']) False exampleStory) [0, 1, 2, 3, 4, 5] =
   [False, False, True, True, False, False]"
  by code_simp

lemma example_paragraphs:
  "isHeadingOrTable (exampleStory ! 3)" "\<not> isHeadingOrTable (exampleStory ! 2)"
  "\<not> isHeadingOrTable (exampleStory ! 4)" "\<not> isTrueList (exampleStory ! 4)"
  "\<not> hasGlyph (exampleStory ! 4)" "startsWithTab (exampleStory ! 4)"
  "\<not> looksListyStyle (exampleStory ! 4)" "length exampleStory = 5"
  "startsWithTab (exampleStory ! 2)" "\<not> looksListyStyle (exampleStory ! 2)"
  "\<not> isTrueList (exampleStory ! 2)" "\<not> hasGlyph (exampleStory ! 2)"
  by code_simp+

text \<open>
  The example story: the tabbed body paragraph behind the list paragraph is a bullet
  by continuation, the heading resets the flag, and the tabbed body paragraph behind
  the heading is not a bullet.
\<close>

theorem prevWasBullet_invariant_witness:
  "(2::nat) < length exampleStory \<and> 3 < length exampleStory \<and> 4 < length exampleStory \<and>
   prevWasBulletAt (gatherStyles [str ''Bullets'']) False exampleStory 2 \<and>
   fst (tabAwareStep (gatherStyles [str ''Bullets''])
         (prevWasBulletAt (gatherStyles [str ''Bullets'']) False exampleStory 2) (exampleStory ! 2)) \<and>
   isHeadingOrTable (exampleStory ! 3) \<and>
   normalizeBulletsAndListsTab (gatherStyles [str ''Bullets'']) exampleStory ! 3 = exampleStory ! 3 \<and>
   \<not> prevWasBulletAt (gatherStyles [str ''Bullets'']) False exampleStory 4 \<and>
   startsWithTab (exampleStory ! 4) \<and>
   \<not> fst (tabAwareStep (gatherStyles [str ''Bullets''])
         (prevWasBulletAt (gatherStyles [str ''Bullets'']) False exampleStory 4) (exampleStory ! 4))"
proof -
  let ?st = "gatherStyles [str ''Bullets'']"
  have l: "(2::nat) < length exampleStory" "3 < length exampleStory" "4 < length exampleStory"
    using example_paragraphs(8) by simp_all
  have f2: "prevWasBulletAt ?st False exampleStory 2" using example_flags by simp
  note w2 = prevWasBullet_invariant[OF l(1), of ?st]
  note w3 = prevWasBullet_invariant[OF l(2), of ?st]
  note w4 = prevWasBullet_invariant[OF l(3), of ?st]
  have c2: "fst (tabAwareStep ?st (prevWasBulletAt ?st False exampleStory 2) (exampleStory ! 2))"
    using w2 f2 example_paragraphs by blast
  have h3: "\<not> prevWasBulletAt ?st False exampleStory (Suc 3) \<and>
      normalizeBulletsAndListsTab ?st exampleStory ! 3 = exampleStory ! 3"
    using w3 example_paragraphs(1) by blast
  then have f4: "\<not> prevWasBulletAt ?st False exampleStory 4" by (simp add: eval_nat_numeral)
  have c4: "\<not> fst (tabAwareStep ?st (prevWasBulletAt ?st False exampleStory 4) (exampleStory ! 4))"
    using w4 f4 example_paragraphs by blast
  show ?thesis using l f2 c2 h3 f4 c4 example_paragraphs by blast
qed

text \<open>
  Claim C10. The glyph test asks for nothing behind the matched character, and its
  class holds the letter \<open>o\<close>, the hyphen and the en dash. So every paragraph whose
  text begins with one of them counts as glyph evidence and loses at least that
  character; unless its style makes the pass skip it as a heading or a table, the
  first \<open>normalizeBulletsAndLists\<close> strips the leading glyphs and white space and
  assigns \<open>styles.bullet\<close> and the list type of a bullet list, and so does the
  tab-aware variant, which assigns the bullet style when it is registered and keeps
  the paragraph's style otherwise. The first variant treats every paragraph of the
  story so; the tab-aware loop does at every iteration, whatever its flag is.
\<close>

theorem glyph_test_overmatches:
  assumes "contents p = c # cs" and "c = 0x6F \<or> c = 0x2D \<or> c = 0x2013"
  shows "hasGlyph p \<and>
         length (trimStart (dropWhile isGlyph (trimEnd (contents p)))) < length (contents p) \<and>
         (\<not> skipsHeadingOrTable p \<longrightarrow>
            normalizeBulletsAndListsStep st p =
              p\<lparr>contents := trimStart (dropWhile isGlyph (trimEnd (contents p))),
                appliedParagraphStyle := bullet st,
                bulletsAndNumberingListType := BULLET_LIST, overrides := False\<rparr>) \<and>
         (\<not> isHeadingOrTable p \<longrightarrow>
            tabAwareStep st prev p =
              (True,
               p\<lparr>contents := trimStart (dropWhile isGlyph (trimEnd (contents p))),
                 appliedParagraphStyle :=
                   (if bullet st \<noteq> None then bullet st else appliedParagraphStyle p),
                 bulletsAndNumberingListType := BULLET_LIST, overrides := False\<rparr>)) \<and>
         normalizeBulletsAndLists st ps = map (normalizeBulletsAndListsStep st) ps"
proof -
  have g: "isGlyph c" using assms(2) by (rule overmatch_glyphs)
  obtain ys where t: "trimEnd (c # cs) = c # ys"
    using trimEnd_Cons_keep glyph_not_space[OF g] by blast
  have m: "glyphRE (trimEnd (contents p)) = Some (trimStart (dropWhile isGlyph (trimEnd (contents p))))"
    using assms(1) t g by (simp add: glyphRE_Cons)
  have h: "hasGlyph p" using m by (simp add: hasGlyph_def reTest_def)
  have r: "reRemove glyphRE (trimEnd (contents p)) = trimStart (dropWhile isGlyph (trimEnd (contents p)))"
    using m by (simp add: reRemove_def)
  have r2: "removeLeadingTabs (trimStart (dropWhile isGlyph (trimEnd (contents p)))) =
      trimStart (dropWhile isGlyph (trimEnd (contents p)))"
    unfolding trimStart_def by (rule removeLeadingTabs_after_space)
  have "length (dropWhile isGlyph (c # ys)) \<le> length ys"
    using g length_dropWhile_le[of isGlyph ys] by simp
  moreover have "length (c # ys) \<le> length (c # cs)"
    using t length_dropWhile_le[of isSpace "rev (c # cs)"] unfolding trimEnd_def
    by (metis length_rev)
  moreover have "length (trimStart (dropWhile isGlyph (c # ys))) \<le> length (dropWhile isGlyph (c # ys))"
    unfolding trimStart_def by (rule length_dropWhile_le)
  ultimately have len: "length (trimStart (dropWhile isGlyph (trimEnd (contents p)))) < length (contents p)"
    using assms(1) t by simp
  have v1: "\<not> skipsHeadingOrTable p \<longrightarrow>
            normalizeBulletsAndListsStep st p =
              p\<lparr>contents := trimStart (dropWhile isGlyph (trimEnd (contents p))),
                appliedParagraphStyle := bullet st,
                bulletsAndNumberingListType := BULLET_LIST, overrides := False\<rparr>"
    using h r by (simp add: normalizeBulletsAndListsStep_def hasGlyph_def Let_def)
  have v2: "\<not> isHeadingOrTable p \<longrightarrow>
            tabAwareStep st prev p =
              (True,
               p\<lparr>contents := trimStart (dropWhile isGlyph (trimEnd (contents p))),
                 appliedParagraphStyle :=
                   (if bullet st \<noteq> None then bullet st else appliedParagraphStyle p),
                 bulletsAndNumberingListType := BULLET_LIST, overrides := False\<rparr>)"
    using h r r2 by (simp add: tabAwareStep_def shouldBeBullet_def Let_def)
  have all: "normalizeBulletsAndLists st ps = map (normalizeBulletsAndListsStep st) ps"
    by (induction ps) simp_all
  show ?thesis using h len v1 v2 all by blast
qed

lemma once_facts:
  "contents (plainPara (str ''Body'') (str ''once upon a time'')) = 0x6F # str ''nce upon a time''"
  "\<not> skipsHeadingOrTable (plainPara (str ''Body'') (str ''once upon a time''))"
  "\<not> isHeadingOrTable (plainPara (str ''Body'') (str ''once upon a time''))"
  "trimStart (dropWhile isGlyph (trimEnd (str ''once upon a time''))) = str ''nce upon a time''"
  "bullet (gatherStyles [str ''Body'', str ''Bullets'']) = Some (ParagraphStyle (str ''Bullets''))"
  by code_simp+

text \<open>
  The ordinary sentence "once upon a time" in a body paragraph becomes the bullet
  "nce upon a time" in both variants.
\<close>

theorem glyph_test_overmatches_witness:
  "hasGlyph (plainPara (str ''Body'') (str ''once upon a time'')) \<and>
   normalizeBulletsAndListsStep (gatherStyles [str ''Body'', str ''Bullets''])
     (plainPara (str ''Body'') (str ''once upon a time'')) =
   \<lparr>contents = str ''nce upon a time'',
    appliedParagraphStyle = Some (ParagraphStyle (str ''Bullets'')),
    leftIndent = 0, bulletsAndNumberingListType = BULLET_LIST, overrides = False\<rparr> \<and>
   tabAwareStep (gatherStyles [str ''Body'', str ''Bullets'']) False
     (plainPara (str ''Body'') (str ''once upon a time'')) =
   (True,
    \<lparr>contents = str ''nce upon a time'',
     appliedParagraphStyle = Some (ParagraphStyle (str ''Bullets'')),
     leftIndent = 0, bulletsAndNumberingListType = BULLET_LIST, overrides = False\<rparr>)"
proof -
  let ?p = "plainPara (str ''Body'') (str ''once upon a time'')"
  let ?st = "gatherStyles [str ''Body'', str ''Bullets'']"
  have c: "(0x6F::jschar) = 0x6F \<or> (0x6F::jschar) = 0x2D \<or> (0x6F::jschar) = 0x2013" by simp
  note w = glyph_test_overmatches[OF once_facts(1) c, of ?st False]
  have e: "contents ?p = str ''once upon a time''" by (simp add: plainPara_def)
  have 1: "hasGlyph ?p" using w by blast
  have 2: "normalizeBulletsAndListsStep ?st ?p =
     \<lparr>contents = str ''nce upon a time'',
      appliedParagraphStyle = Some (ParagraphStyle (str ''Bullets'')),
      leftIndent = 0, bulletsAndNumberingListType = BULLET_LIST, overrides = False\<rparr>"
    using w once_facts(2) once_facts(4,5) unfolding e by (simp add: plainPara_def)
  have 3: "tabAwareStep ?st False ?p =
     (True,
      \<lparr>contents = str ''nce upon a time'',
       appliedParagraphStyle = Some (ParagraphStyle (str ''Bullets'')),
       leftIndent = 0, bulletsAndNumberingListType = BULLET_LIST, overrides = False\<rparr>)"
    using w once_facts(3) once_facts(4,5) unfolding e by (simp add: plainPara_def)
  show ?thesis using 1 2 3 by blast
qed

section \<open>Properties of the hyperlink classifier\<close>










end
